theory Spec2Isabelle
  imports Complex_Main "HOL-Library.Multiset"
begin

section \<open>Data model\<close>

text \<open>
  The solver works on a 9x9 board of Python integers, \<open>0\<close> standing for an empty
  cell.  A board is a list of rows (the value of the NumPy array, row-major); coordinates
  are Python integers.  The exceptions the code can raise are values of \<open>error\<close>.
\<close>

type_synonym grid = "int list list"
type_synonym cell = "int \<times> int"

datatype error = IndexError | KeyError | RecursionError | OverflowError | ValueError

text \<open>
  Subscripting \<open>xs[i]\<close>: an index below zero counts from the end, anything outside
  \<open>-len \<dots> len-1\<close> raises \<open>IndexError\<close>.
\<close>

definition norm_index :: "'a list \<Rightarrow> int \<Rightarrow> nat option" where
  "norm_index xs i =
     (if 0 \<le> i \<and> i < int (length xs) then Some (nat i)
      else if i < 0 \<and> - int (length xs) \<le> i then Some (nat (int (length xs) + i))
      else None)"

definition getitem :: "'a list \<Rightarrow> int \<Rightarrow> error + 'a" where
  "getitem xs i = (case norm_index xs i of None \<Rightarrow> Inl IndexError | Some k \<Rightarrow> Inr (xs ! k))"

definition setitem :: "'a list \<Rightarrow> int \<Rightarrow> 'a \<Rightarrow> error + 'a list" where
  "setitem xs i v = (case norm_index xs i of None \<Rightarrow> Inl IndexError | Some k \<Rightarrow> Inr (xs[k := v]))"

text \<open>\<open>board[row][col]\<close> and \<open>board[row][col] = v\<close>.\<close>

definition get_cell :: "grid \<Rightarrow> int \<Rightarrow> int \<Rightarrow> error + int" where
  "get_cell g row col = (case getitem g row of Inl e \<Rightarrow> Inl e | Inr r \<Rightarrow> getitem r col)"

definition set_cell :: "grid \<Rightarrow> int \<Rightarrow> int \<Rightarrow> int \<Rightarrow> error + grid" where
  "set_cell g row col v =
     (case getitem g row of Inl e \<Rightarrow> Inl e
      | Inr r \<Rightarrow> (case setitem r col v of Inl e \<Rightarrow> Inl e | Inr r' \<Rightarrow> setitem g row r'))"

text \<open>
  The mutable variables the search works on: the board (mutated in place), the three
  \<open>defaultdict(set)\<close> tables of digits already seen per row, per column and per 3x3
  sub-grid, and the list of empty cells.  A \<open>defaultdict(set)\<close> is modelled by what a
  read of it yields: the stored set, or the empty set for a key never written.  In
  \<^verbatim>\<open>sudoku_final_solution.py\<close> these are the closure variables \<open>sudoku\<close>,
  \<open>row_to_seen_vals\<close>, \<open>col_to_seen_vals\<close>, \<open>grid_to_cells\<close> and \<open>empty_cells\<close>;
  in \<^verbatim>\<open>sudoku_approach1.py\<close> they are the fields of \<open>SudokuState\<close>
  (\<open>board\<close>, \<dots>, \<open>sub_grid\<close>, \<open>empty_cells\<close>).
\<close>

record state =
  board :: grid
  row_to_seen_vals :: "int \<Rightarrow> int set"
  col_to_seen_vals :: "int \<Rightarrow> int set"
  grid_to_cells :: "int \<times> int \<Rightarrow> int set"
  empty_cells :: "cell list"

section \<open>The solver of \<^verbatim>\<open>sudoku_final_solution.py\<close>\<close>

text \<open>\<open>invalid_sudoku = [[-1] * 9] * 9\<close>\<close>

definition invalid_sudoku :: grid where
  "invalid_sudoku = replicate 9 (replicate 9 (- 1))"

text \<open>The cells in the order of the two nested \<open>for \<dots> in range(9)\<close> loops.\<close>

definition all_cells :: "cell list" where
  "all_cells = concat (map (\<lambda>row. map (\<lambda>col. (row, col)) [0..8]) [0..8])"

text \<open>
  The body of the nested loops of \<open>solve_sudoku\<close>, run over the remaining cells.  The
  flag of the result is \<open>True\<close> where the loop left through
  \<open>return invalid_sudoku\<close>.
\<close>

fun populate :: "state \<Rightarrow> cell list \<Rightarrow> error + (bool \<times> state)" where
  "populate s [] = Inr (False, s)"
| "populate s ((row, col) # rest) =
     (case get_cell (board s) row col of
        Inl e \<Rightarrow> Inl e
      | Inr val \<Rightarrow>
          if val = 0 then populate (s\<lparr>empty_cells := empty_cells s @ [(row, col)]\<rparr>) rest
          else if val \<in> row_to_seen_vals s row \<or> val \<in> col_to_seen_vals s col
                  \<or> val \<in> grid_to_cells s (row div 3, col div 3)
          then Inr (True, s)
          else populate
                 (s\<lparr>col_to_seen_vals := (col_to_seen_vals s)(col := insert val (col_to_seen_vals s col)),
                    row_to_seen_vals := (row_to_seen_vals s)(row := insert val (row_to_seen_vals s row)),
                    grid_to_cells := (grid_to_cells s)
                      ((row div 3, col div 3) := insert val (grid_to_cells s (row div 3, col div 3)))\<rparr>)
                 rest)"

text \<open>
  Lines 70 to 76 of \<open>depth_first_search\<close>: write the digit, pop the last empty cell,
  record the digit as seen.  \<open>pop()\<close> on an empty list raises \<open>IndexError\<close>.
\<close>

definition place :: "state \<Rightarrow> int \<Rightarrow> int \<Rightarrow> int \<Rightarrow> error + state" where
  "place s row col digit =
     (case set_cell (board s) row col digit of
        Inl e \<Rightarrow> Inl e
      | Inr b \<Rightarrow>
          if empty_cells s = [] then Inl IndexError
          else Inr (s\<lparr>board := b,
                      empty_cells := butlast (empty_cells s),
                      row_to_seen_vals := (row_to_seen_vals s)(row := insert digit (row_to_seen_vals s row)),
                      col_to_seen_vals := (col_to_seen_vals s)(col := insert digit (col_to_seen_vals s col)),
                      grid_to_cells := (grid_to_cells s)
                        ((row div 3, col div 3) := insert digit (grid_to_cells s (row div 3, col div 3)))\<rparr>))"

text \<open>
  Lines 82 to 87: clear the cell, append it to the empty cells again, discard the digit.
\<close>

definition undo :: "state \<Rightarrow> int \<Rightarrow> int \<Rightarrow> int \<Rightarrow> error + state" where
  "undo s row col digit =
     (case set_cell (board s) row col 0 of
        Inl e \<Rightarrow> Inl e
      | Inr b \<Rightarrow>
          Inr (s\<lparr>board := b,
                 empty_cells := empty_cells s @ [(row, col)],
                 row_to_seen_vals := (row_to_seen_vals s)(row := row_to_seen_vals s row - {digit}),
                 col_to_seen_vals := (col_to_seen_vals s)(col := col_to_seen_vals s col - {digit}),
                 grid_to_cells := (grid_to_cells s)
                   ((row div 3, col div 3) := grid_to_cells s (row div 3, col div 3) - {digit})\<rparr>))"

text \<open>
  \<open>depth_first_search\<close>, and its \<open>for digit in range(1, 10)\<close> loop as
  \<open>try_digits\<close> over the digits still to try.  The result is the returned value
  (\<open>None\<close>, or the board object, given by its contents) with the variables as the call
  leaves them.  The first argument is the number of further nested calls the interpreter
  allows: a call beyond it raises \<open>RecursionError\<close>.
\<close>

fun depth_first_search :: "nat \<Rightarrow> state \<Rightarrow> error + (grid option \<times> state)"
  and try_digits :: "nat \<Rightarrow> state \<Rightarrow> int \<Rightarrow> int \<Rightarrow> int list \<Rightarrow> error + (grid option \<times> state)"
where
  "depth_first_search limit s =
     (if empty_cells s = [] then Inr (Some (board s), s)
      else try_digits limit s (fst (last (empty_cells s))) (snd (last (empty_cells s))) [1..9])"
| "try_digits limit s row col [] = Inr (None, s)"
| "try_digits limit s row col (digit # digits) =
     (if digit \<notin> row_to_seen_vals s row \<and> digit \<notin> col_to_seen_vals s col
         \<and> digit \<notin> grid_to_cells s (row div 3, col div 3)
      then
        (case place s row col digit of
           Inl e \<Rightarrow> Inl e
         | Inr s1 \<Rightarrow>
             (case limit of
                0 \<Rightarrow> Inl RecursionError
              | Suc l \<Rightarrow>
                  (case depth_first_search l s1 of
                     Inl e \<Rightarrow> Inl e
                   | Inr (None, s2) \<Rightarrow>
                       (case undo s2 row col digit of
                          Inl e \<Rightarrow> Inl e
                        | Inr s3 \<Rightarrow> try_digits limit s3 row col digits)
                   | Inr (Some deep_state, s2) \<Rightarrow> Inr (Some (board s2), s2))))
      else try_digits limit s row col digits)"

text \<open>
  \<open>solve_sudoku\<close> on the variables as \<open>sudoku_solver\<close> creates them.  The result is
  the returned board together with the final variables, whose \<open>board\<close> is the caller's
  array after the call.
\<close>

definition solve_sudoku :: "nat \<Rightarrow> state \<Rightarrow> error + (grid \<times> state)" where
  "solve_sudoku limit s0 =
     (case populate s0 all_cells of
        Inl e \<Rightarrow> Inl e
      | Inr (True, s) \<Rightarrow> Inr (invalid_sudoku, s)
      | Inr (False, s) \<Rightarrow>
          (case depth_first_search limit s of
             Inl e \<Rightarrow> Inl e
           | Inr (None, s') \<Rightarrow> Inr (invalid_sudoku, s')
           | Inr (Some goal_state, s') \<Rightarrow> Inr (goal_state, s')))"

definition initial_state :: "grid \<Rightarrow> state" where
  "initial_state sudoku =
     \<lparr>board = sudoku, row_to_seen_vals = (\<lambda>_. {}), col_to_seen_vals = (\<lambda>_. {}),
      grid_to_cells = (\<lambda>_. {}), empty_cells = []\<rparr>"

text \<open>
  \<open>sudoku_solver\<close> creates the variables and returns what \<open>solve_sudoku\<close> returns;
  \<open>sudoku_after\<close> is the caller's array once the call has returned.
\<close>

definition sudoku_solver :: "nat \<Rightarrow> grid \<Rightarrow> error + grid" where
  "sudoku_solver limit sudoku =
     (case solve_sudoku limit (initial_state sudoku) of
        Inl e \<Rightarrow> Inl e
      | Inr (result, s) \<Rightarrow> Inr result)"

definition sudoku_after :: "nat \<Rightarrow> grid \<Rightarrow> error + grid" where
  "sudoku_after limit sudoku =
     (case solve_sudoku limit (initial_state sudoku) of
        Inl e \<Rightarrow> Inl e
      | Inr (result, s) \<Rightarrow> Inr (board s))"

declare depth_first_search.simps [simp del] try_digits.simps [simp del]

text \<open>
  The same search, also listing the variables as they stand after every placement
  (lines 70 to 76) and after every backtracking step (lines 82 to 87), in the order in
  which they happen.
\<close>

fun dfs_trace :: "nat \<Rightarrow> state \<Rightarrow> state list \<times> (error + (grid option \<times> state))"
  and try_trace :: "nat \<Rightarrow> state \<Rightarrow> int \<Rightarrow> int \<Rightarrow> int list \<Rightarrow> state list \<times> (error + (grid option \<times> state))"
where
  "dfs_trace limit s =
     (if empty_cells s = [] then ([], Inr (Some (board s), s))
      else try_trace limit s (fst (last (empty_cells s))) (snd (last (empty_cells s))) [1..9])"
| "try_trace limit s row col [] = ([], Inr (None, s))"
| "try_trace limit s row col (digit # digits) =
     (if digit \<notin> row_to_seen_vals s row \<and> digit \<notin> col_to_seen_vals s col
         \<and> digit \<notin> grid_to_cells s (row div 3, col div 3)
      then
        (case place s row col digit of
           Inl e \<Rightarrow> ([], Inl e)
         | Inr s1 \<Rightarrow>
             (case limit of
                0 \<Rightarrow> ([s1], Inl RecursionError)
              | Suc l \<Rightarrow>
                  (case dfs_trace l s1 of
                     (t1, Inl e) \<Rightarrow> (s1 # t1, Inl e)
                   | (t1, Inr (None, s2)) \<Rightarrow>
                       (case undo s2 row col digit of
                          Inl e \<Rightarrow> (s1 # t1, Inl e)
                        | Inr s3 \<Rightarrow>
                            (case try_trace limit s3 row col digits of
                               (t2, r) \<Rightarrow> (s1 # t1 @ s3 # t2, r)))
                   | (t1, Inr (Some deep_state, s2)) \<Rightarrow> (s1 # t1, Inr (Some (board s2), s2)))))
      else try_trace limit s row col digits)"

declare dfs_trace.simps [simp del] try_trace.simps [simp del]

text \<open>
  All states of one run of the solver: the variables as \<open>solve_sudoku\<close> has populated
  them, followed by those of the search; none when the input is rejected or cannot be read.
\<close>

definition solver_states :: "nat \<Rightarrow> grid \<Rightarrow> state list" where
  "solver_states limit sudoku =
     (case populate (initial_state sudoku) all_cells of
        Inl e \<Rightarrow> []
      | Inr (True, s) \<Rightarrow> []
      | Inr (False, s) \<Rightarrow> s # fst (dfs_trace limit s))"

section \<open>The class \<open>SudokuState\<close> of \<^verbatim>\<open>sudoku_approach1.py\<close>\<close>

text \<open>
  The fields \<open>board\<close>, \<open>row_to_seen_vals\<close>, \<open>col_to_seen_vals\<close>, \<open>sub_grid\<close> (here
  \<open>grid_to_cells\<close>) and \<open>empty_cells\<close> are those of \<open>state\<close>; \<open>n\<close> is 9 and
  \<open>n_sq_root\<close> is \<open>math.sqrt(9)\<close>, the float 3.0.

  \<open>row // self.n_sq_root\<close> divides an \<open>int\<close> by a float.  Python converts the \<open>int\<close> to
  the nearest double (ties to even) and raises \<open>OverflowError\<close> when that would be
  \<open>2^1024\<close> or more; the floor division of two doubles then follows the C function
  \<open>float_divmod\<close> of the interpreter, each arithmetic step rounding to the nearest
  double.  The result is a float with an integral value, and as a dictionary key a float
  is equal to the integer of the same value.
\<close>

text \<open>
  Doubles are modelled by their values, as rationals.  \<open>to_double q\<close> is the double
  nearest to \<open>q\<close>, ties to even, for \<open>q\<close> in the range of normal doubles (no value
  computed below is subnormal or overflows): with \<open>2^e \<le> |q| < 2^(e+1)\<close> the doubles
  near \<open>q\<close> are the multiples of \<open>2^(e-52)\<close>.
\<close>

fun ilog2 :: "nat \<Rightarrow> nat" where
  "ilog2 n = (if n < 2 then 0 else Suc (ilog2 (n div 2)))"

declare ilog2.simps [simp del]

definition exponent :: "rat \<Rightarrow> int" where
  "exponent q =
     (if 1 \<le> \<bar>q\<bar> then int (ilog2 (nat \<lfloor>\<bar>q\<bar>\<rfloor>))
      else - int (Suc (ilog2 (nat (\<lceil>1 / \<bar>q\<bar>\<rceil> - 1)))))"

definition round_half_even :: "rat \<Rightarrow> int" where
  "round_half_even q =
     (if q - of_int \<lfloor>q\<rfloor> < 1 / 2 then \<lfloor>q\<rfloor>
      else if 1 / 2 < q - of_int \<lfloor>q\<rfloor> then \<lfloor>q\<rfloor> + 1
      else if even \<lfloor>q\<rfloor> then \<lfloor>q\<rfloor> else \<lfloor>q\<rfloor> + 1)"

definition to_double :: "rat \<Rightarrow> rat" where
  "to_double q =
     (if q = 0 then 0
      else of_int (round_half_even (q / 2 powi (exponent q - 52))) * 2 powi (exponent q - 52))"

text \<open>The conversion of a Python \<open>int\<close> to a float.\<close>

definition float_of_int :: "int \<Rightarrow> error + rat" where
  "float_of_int x =
     (if 2 ^ 1024 - 2 ^ 970 \<le> \<bar>x\<bar> then Inl OverflowError else Inr (to_double (of_int x)))"

text \<open>
  The C function \<open>fmod\<close> is exact: the remainder of the division truncated towards zero.
\<close>

definition fmod :: "rat \<Rightarrow> rat \<Rightarrow> rat" where
  "fmod v w = v - w * of_int (if 0 \<le> v / w then \<lfloor>v / w\<rfloor> else \<lceil>v / w\<rceil>)"

text \<open>
  Floor division of two doubles, \<open>wx\<close> not zero: the quotient of \<open>vx - mod\<close> by \<open>wx\<close>,
  lowered by one when the remainder and the divisor differ in sign, then snapped to the
  nearest integral value.
\<close>

definition float_floor_div :: "rat \<Rightarrow> rat \<Rightarrow> rat" where
  "float_floor_div vx wx =
     (let rem = fmod vx wx;
          quot0 = to_double (to_double (vx - rem) / wx);
          quot = (if rem \<noteq> 0 \<and> ((wx < 0) \<noteq> (rem < 0)) then to_double (quot0 - 1) else quot0)
      in if quot \<noteq> 0
         then (if 1 / 2 < to_double (quot - of_int \<lfloor>quot\<rfloor>) then to_double (of_int \<lfloor>quot\<rfloor> + 1)
               else of_int \<lfloor>quot\<rfloor>)
         else 0)"

text \<open>\<open>x // self.n_sq_root\<close>, the key given by the integer equal to the resulting float.\<close>

definition floordiv_n_sq_root :: "int \<Rightarrow> error + int" where
  "floordiv_n_sq_root x =
     (case float_of_int x of Inl e \<Rightarrow> Inl e | Inr vx \<Rightarrow> Inr \<lfloor>float_floor_div vx 3\<rfloor>)"

definition grid_key :: "int \<Rightarrow> int \<Rightarrow> error + (int \<times> int)" where
  "grid_key row col =
     (case floordiv_n_sq_root row of
        Inl e \<Rightarrow> Inl e
      | Inr a \<Rightarrow> (case floordiv_n_sq_root col of Inl e \<Rightarrow> Inl e | Inr b \<Rightarrow> Inr (a, b)))"

text \<open>
  \<open>is_unsolvable\<close>: \<open>val in cols or val in rows or val in sub_grid[key]\<close>, evaluated from
  the left, so that the key is computed only when the first two tests fail.
\<close>

definition is_unsolvable :: "state \<Rightarrow> int \<Rightarrow> int \<Rightarrow> int \<Rightarrow> error + bool" where
  "is_unsolvable s row col val =
     (if val \<in> col_to_seen_vals s col then Inr True
      else if val \<in> row_to_seen_vals s row then Inr True
      else (case grid_key row col of
              Inl e \<Rightarrow> Inl e
            | Inr k \<Rightarrow> Inr (val \<in> grid_to_cells s k)))"

definition is_goal_state :: "state \<Rightarrow> bool" where
  "is_goal_state s \<longleftrightarrow> length (empty_cells s) = 0"

definition place_digit :: "state \<Rightarrow> int \<Rightarrow> int \<Rightarrow> int \<Rightarrow> error + state" where
  "place_digit s row col val =
     (case set_cell (board s) row col val of
        Inl e \<Rightarrow> Inl e
      | Inr b \<Rightarrow>
          if empty_cells s = [] then Inl IndexError
          else
            (case grid_key row col of
               Inl e \<Rightarrow> Inl e
             | Inr k \<Rightarrow>
                 Inr (s\<lparr>board := b,
                        empty_cells := butlast (empty_cells s),
                        row_to_seen_vals := (row_to_seen_vals s)(row := insert val (row_to_seen_vals s row)),
                        col_to_seen_vals := (col_to_seen_vals s)(col := insert val (col_to_seen_vals s col)),
                        grid_to_cells := (grid_to_cells s)(k := insert val (grid_to_cells s k))\<rparr>)))"

text \<open>\<open>revert_state\<close> leaves the board as it is.\<close>

definition revert_state :: "state \<Rightarrow> int \<Rightarrow> int \<Rightarrow> int \<Rightarrow> error + state" where
  "revert_state s row col val =
     (case grid_key row col of
        Inl e \<Rightarrow> Inl e
      | Inr k \<Rightarrow>
          Inr (s\<lparr>empty_cells := empty_cells s @ [(row, col)],
                 row_to_seen_vals := (row_to_seen_vals s)(row := row_to_seen_vals s row - {val}),
                 col_to_seen_vals := (col_to_seen_vals s)(col := col_to_seen_vals s col - {val}),
                 grid_to_cells := (grid_to_cells s)(k := grid_to_cells s k - {val})\<rparr>))"

text \<open>\<open>choose_cell\<close>: \<open>self.empty_cells[-1]\<close>, the expression of line 62 of the final solver.\<close>

definition choose_cell :: "state \<Rightarrow> error + cell" where
  "choose_cell s = (if empty_cells s = [] then Inl IndexError else Inr (last (empty_cells s)))"

text \<open>\<open>_initialize_state\<close> over the remaining cells; a duplicate raises \<open>ValueError\<close>.\<close>

fun initialize_state :: "state \<Rightarrow> cell list \<Rightarrow> error + state" where
  "initialize_state s [] = Inr s"
| "initialize_state s ((row, col) # rest) =
     (case get_cell (board s) row col of
        Inl e \<Rightarrow> Inl e
      | Inr val \<Rightarrow>
          if val = 0 then initialize_state (s\<lparr>empty_cells := empty_cells s @ [(row, col)]\<rparr>) rest
          else
            (case is_unsolvable s row col val of
               Inl e \<Rightarrow> Inl e
             | Inr True \<Rightarrow> Inl ValueError
             | Inr False \<Rightarrow>
                 (case grid_key row col of
                    Inl e \<Rightarrow> Inl e
                  | Inr k \<Rightarrow>
                      initialize_state
                        (s\<lparr>col_to_seen_vals := (col_to_seen_vals s)(col := insert val (col_to_seen_vals s col)),
                           row_to_seen_vals := (row_to_seen_vals s)(row := insert val (row_to_seen_vals s row)),
                           grid_to_cells := (grid_to_cells s)(k := insert val (grid_to_cells s k))\<rparr>)
                        rest)))"

text \<open>The constructor call \<open>SudokuState(board)\<close>.\<close>

definition SudokuState :: "grid \<Rightarrow> error + state" where
  "SudokuState grid = initialize_state (initial_state grid) all_cells"

text \<open>
  \<open>depth_first_search\<close> and \<open>sudoku_solver\<close> of \<^verbatim>\<open>sudoku_approach1.py\<close>.  The
  search returns the state object or \<open>None\<close>: the flag of the result says which.
\<close>

fun depth_first_search_a1 :: "nat \<Rightarrow> state \<Rightarrow> error + (bool \<times> state)"
  and try_digits_a1 :: "nat \<Rightarrow> state \<Rightarrow> int \<Rightarrow> int \<Rightarrow> int list \<Rightarrow> error + (bool \<times> state)"
where
  "depth_first_search_a1 limit s =
     (if is_goal_state s then Inr (True, s)
      else
        (case choose_cell s of
           Inl e \<Rightarrow> Inl e
         | Inr (row, col) \<Rightarrow> try_digits_a1 limit s row col [1..9]))"
| "try_digits_a1 limit s row col [] = Inr (False, s)"
| "try_digits_a1 limit s row col (digit # digits) =
     (case is_unsolvable s row col digit of
        Inl e \<Rightarrow> Inl e
      | Inr True \<Rightarrow> try_digits_a1 limit s row col digits
      | Inr False \<Rightarrow>
          (case place_digit s row col digit of
             Inl e \<Rightarrow> Inl e
           | Inr s1 \<Rightarrow>
               (case limit of
                  0 \<Rightarrow> Inl RecursionError
                | Suc l \<Rightarrow>
                    (case depth_first_search_a1 l s1 of
                       Inl e \<Rightarrow> Inl e
                     | Inr (False, s2) \<Rightarrow>
                         (case revert_state s2 row col digit of
                            Inl e \<Rightarrow> Inl e
                          | Inr s3 \<Rightarrow> try_digits_a1 limit s3 row col digits)
                     | Inr (True, s2) \<Rightarrow> Inr (True, s2)))))"

declare depth_first_search_a1.simps [simp del] try_digits_a1.simps [simp del]

text \<open>The \<open>try\<close> block: a \<open>ValueError\<close> from the constructor or the search gives the
  sentinel, any other exception leaves the function.\<close>

definition sudoku_solver_a1 :: "nat \<Rightarrow> grid \<Rightarrow> error + grid" where
  "sudoku_solver_a1 limit sudoku =
     (case SudokuState sudoku of
        Inl e \<Rightarrow> (if e = ValueError then Inr invalid_sudoku else Inl e)
      | Inr initial \<Rightarrow>
          (case depth_first_search_a1 limit initial of
             Inl e \<Rightarrow> (if e = ValueError then Inr invalid_sudoku else Inl e)
           | Inr (False, s) \<Rightarrow> Inr invalid_sudoku
           | Inr (True, s) \<Rightarrow> Inr (board s)))"

section \<open>The class \<open>SudokuState\<close> of \<^verbatim>\<open>sudoku_approach3_samestate_heap.py\<close>\<close>

text \<open>
  The fields of this class are those of \<open>state\<close> and the table \<open>col_to_missing_rows\<close>,
  a \<open>defaultdict(set)\<close> holding for every column the rows in which it has an empty cell.
  \<open>empty_cells\<close> is a list kept with the functions of \<open>heapq\<close>.
\<close>

record heap_state = state +
  col_to_missing_rows :: "int \<Rightarrow> int set"

text \<open>The order of Python on the tuples \<open>(row, col)\<close>.\<close>

definition tuple_less :: "cell \<Rightarrow> cell \<Rightarrow> bool" where
  "tuple_less p q \<longleftrightarrow> fst p < fst q \<or> fst p = fst q \<and> snd p < snd q"

text \<open>
  \<open>heapq.heappush(heap, item)\<close>: append the item, then move it towards the root while it
  is smaller than its parent (\<open>_siftdown(heap, 0, len(heap) - 1)\<close>).
\<close>

fun siftdown :: "cell list \<Rightarrow> cell \<Rightarrow> nat \<Rightarrow> cell list" where
  "siftdown heap newitem pos =
     (if 0 < pos \<and> tuple_less newitem (heap ! ((pos - 1) div 2))
      then siftdown (heap[pos := heap ! ((pos - 1) div 2)]) newitem ((pos - 1) div 2)
      else heap[pos := newitem])"

declare siftdown.simps [simp del]

definition heappush :: "cell list \<Rightarrow> cell \<Rightarrow> cell list" where
  "heappush heap item = siftdown (heap @ [item]) item (length heap)"

definition grid_key_a3 :: "int \<Rightarrow> int \<Rightarrow> error + (int \<times> int)" where
  "grid_key_a3 row col =
     (case floordiv_n_sq_root row of
        Inl e \<Rightarrow> Inl e
      | Inr a \<Rightarrow> (case floordiv_n_sq_root col of Inl e \<Rightarrow> Inl e | Inr b \<Rightarrow> Inr (a, b)))"

definition is_unsolvable_a3 :: "heap_state \<Rightarrow> int \<Rightarrow> int \<Rightarrow> int \<Rightarrow> error + bool" where
  "is_unsolvable_a3 s row col val =
     (if val \<in> col_to_seen_vals s col then Inr True
      else if val \<in> row_to_seen_vals s row then Inr True
      else (case grid_key_a3 row col of
              Inl e \<Rightarrow> Inl e
            | Inr k \<Rightarrow> Inr (val \<in> grid_to_cells s k)))"

text \<open>\<open>_initialize_state\<close> over the remaining cells.\<close>

fun initialize_state_a3 :: "heap_state \<Rightarrow> cell list \<Rightarrow> error + heap_state" where
  "initialize_state_a3 s [] = Inr s"
| "initialize_state_a3 s ((row, col) # rest) =
     (case get_cell (board s) row col of
        Inl e \<Rightarrow> Inl e
      | Inr val \<Rightarrow>
          if val = 0
          then initialize_state_a3
                 (s\<lparr>col_to_missing_rows := (col_to_missing_rows s)(col := insert row (col_to_missing_rows s col)),
                    empty_cells := heappush (empty_cells s) (row, col)\<rparr>)
                 rest
          else
            (case is_unsolvable_a3 s row col val of
               Inl e \<Rightarrow> Inl e
             | Inr True \<Rightarrow> Inl ValueError
             | Inr False \<Rightarrow>
                 (case grid_key_a3 row col of
                    Inl e \<Rightarrow> Inl e
                  | Inr k \<Rightarrow>
                      initialize_state_a3
                        (s\<lparr>col_to_seen_vals := (col_to_seen_vals s)(col := insert val (col_to_seen_vals s col)),
                           row_to_seen_vals := (row_to_seen_vals s)(row := insert val (row_to_seen_vals s row)),
                           grid_to_cells := (grid_to_cells s)(k := insert val (grid_to_cells s k))\<rparr>)
                        rest)))"

text \<open>The constructor call \<open>SudokuState(grid)\<close>.\<close>

definition SudokuState_a3 :: "grid \<Rightarrow> error + heap_state" where
  "SudokuState_a3 grid =
     initialize_state_a3
       \<lparr>board = grid, row_to_seen_vals = (\<lambda>_. {}), col_to_seen_vals = (\<lambda>_. {}),
        grid_to_cells = (\<lambda>_. {}), empty_cells = [], col_to_missing_rows = (\<lambda>_. {})\<rparr>
       all_cells"

text \<open>
  \<open>place_digit\<close>: \<open>list.remove\<close> takes out the first entry equal to the cell and raises
  \<open>ValueError\<close> when there is none.
\<close>

definition place_digit_a3 :: "heap_state \<Rightarrow> int \<Rightarrow> int \<Rightarrow> int \<Rightarrow> error + heap_state" where
  "place_digit_a3 s row col val =
     (case set_cell (board s) row col val of
        Inl e \<Rightarrow> Inl e
      | Inr b \<Rightarrow>
          if (row, col) \<notin> set (empty_cells s) then Inl ValueError
          else
            (case grid_key_a3 row col of
               Inl e \<Rightarrow> Inl e
             | Inr k \<Rightarrow>
                 Inr (s\<lparr>board := b,
                        empty_cells := remove1 (row, col) (empty_cells s),
                        row_to_seen_vals := (row_to_seen_vals s)(row := insert val (row_to_seen_vals s row)),
                        col_to_seen_vals := (col_to_seen_vals s)(col := insert val (col_to_seen_vals s col)),
                        grid_to_cells := (grid_to_cells s)(k := insert val (grid_to_cells s k)),
                        col_to_missing_rows :=
                          (col_to_missing_rows s)(col := col_to_missing_rows s col - {row})\<rparr>)))"

definition revert_state_a3 :: "heap_state \<Rightarrow> int \<Rightarrow> int \<Rightarrow> int \<Rightarrow> error + heap_state" where
  "revert_state_a3 s row col val =
     (case set_cell (board s) row col 0 of
        Inl e \<Rightarrow> Inl e
      | Inr b \<Rightarrow>
          (case grid_key_a3 row col of
             Inl e \<Rightarrow> Inl e
           | Inr k \<Rightarrow>
               Inr (s\<lparr>board := b,
                      empty_cells := heappush (empty_cells s) (row, col),
                      row_to_seen_vals := (row_to_seen_vals s)(row := row_to_seen_vals s row - {val}),
                      col_to_seen_vals := (col_to_seen_vals s)(col := col_to_seen_vals s col - {val}),
                      grid_to_cells := (grid_to_cells s)(k := grid_to_cells s k - {val}),
                      col_to_missing_rows :=
                        (col_to_missing_rows s)(col := insert row (col_to_missing_rows s col))\<rparr>)))"

text \<open>
  \<open>choose_cell\<close>: \<open>heapq.nsmallest(1, self.empty_cells, key)[0]\<close> with the key
  \<open>len(self.col_to_missing_rows[tpl[1]])\<close>.  For one element \<open>nsmallest\<close> is \<open>min\<close> with
  that key: it runs through the list and keeps the first entry of the least key.  On an
  empty list the subscript raises \<open>IndexError\<close>.
\<close>

fun min_by :: "('a \<Rightarrow> nat) \<Rightarrow> 'a \<Rightarrow> 'a list \<Rightarrow> 'a" where
  "min_by key best [] = best"
| "min_by key best (x # xs) = min_by key (if key x < key best then x else best) xs"

definition choose_cell_a3 :: "heap_state \<Rightarrow> error + cell" where
  "choose_cell_a3 s =
     (case empty_cells s of
        [] \<Rightarrow> Inl IndexError
      | x # xs \<Rightarrow> Inr (min_by (\<lambda>tpl. card (col_to_missing_rows s (snd tpl))) x xs))"

section \<open>The class \<open>PartialSudokuState\<close> of \<^verbatim>\<open>sudoku_approach2_min_row_col.py\<close>\<close>

text \<open>
  The fields of this class are the board and the three tables of \<open>state\<close> (the class has
  no list \<open>empty_cells\<close>; that field stays empty here), the running choices
  \<open>min_empty_row\<close> and \<open>min_empty_col\<close>, and two dictionaries: \<open>row_to_empty_cells\<close>, a
  \<open>defaultdict(set)\<close> from a row to its empty cells, and \<open>col_to_empty_cells_count\<close>, a
  \<open>defaultdict(int)\<close> from a column to the number of its empty cells.  The constructor tests
  whether a key is present, so these two are maps; a read of a missing key yields the
  empty set, or 0.
\<close>

record partial_state = state +
  min_empty_row :: int
  min_empty_col :: int
  row_to_empty_cells :: "int \<rightharpoonup> cell set"
  col_to_empty_cells_count :: "int \<rightharpoonup> int"

definition lookup_set :: "(int \<rightharpoonup> cell set) \<Rightarrow> int \<Rightarrow> cell set" where
  "lookup_set d k = (case d k of None \<Rightarrow> {} | Some v \<Rightarrow> v)"

definition lookup_int :: "(int \<rightharpoonup> int) \<Rightarrow> int \<Rightarrow> int" where
  "lookup_int d k = (case d k of None \<Rightarrow> 0 | Some v \<Rightarrow> v)"

definition sub_grid_key :: "int \<Rightarrow> int \<Rightarrow> error + (int \<times> int)" where
  "sub_grid_key row col =
     (case floordiv_n_sq_root row of
        Inl e \<Rightarrow> Inl e
      | Inr a \<Rightarrow> (case floordiv_n_sq_root col of Inl e \<Rightarrow> Inl e | Inr b \<Rightarrow> Inr (a, b)))"

definition is_unsolvable_a2 :: "partial_state \<Rightarrow> int \<Rightarrow> int \<Rightarrow> int \<Rightarrow> error + bool" where
  "is_unsolvable_a2 s row col val =
     (if val \<in> col_to_seen_vals s col then Inr True
      else if val \<in> row_to_seen_vals s row then Inr True
      else (case sub_grid_key row col of
              Inl e \<Rightarrow> Inl e
            | Inr k \<Rightarrow> Inr (val \<in> grid_to_cells s k)))"

text \<open>
  The bookkeeping of lines 49 to 59 for an empty cell: the cell joins the set of its
  row, the count of its column goes up by one, and each running choice moves to the
  present row (column) when it names no key yet or when the present row (column) holds,
  at this moment of the scan, fewer empty cells than the one it names.
\<close>

definition note_empty_cell :: "partial_state \<Rightarrow> int \<Rightarrow> int \<Rightarrow> partial_state" where
  "note_empty_cell s row col =
     (let rows = (row_to_empty_cells s)(row \<mapsto> insert (row, col) (lookup_set (row_to_empty_cells s) row));
          cols = (col_to_empty_cells_count s)(col \<mapsto> lookup_int (col_to_empty_cells_count s) col + 1)
      in s\<lparr>row_to_empty_cells := rows,
            col_to_empty_cells_count := cols,
            min_empty_row :=
              (if rows (min_empty_row s) = None
                  \<or> card (lookup_set rows row) < card (lookup_set rows (min_empty_row s))
               then row else min_empty_row s),
            min_empty_col :=
              (if cols (min_empty_col s) = None
                  \<or> lookup_int cols col < lookup_int cols (min_empty_col s)
               then col else min_empty_col s)\<rparr>)"

text \<open>\<open>_initialize_state\<close> over the remaining cells.\<close>

fun initialize_state_a2 :: "partial_state \<Rightarrow> cell list \<Rightarrow> error + partial_state" where
  "initialize_state_a2 s [] = Inr s"
| "initialize_state_a2 s ((row, col) # rest) =
     (case get_cell (board s) row col of
        Inl e \<Rightarrow> Inl e
      | Inr val \<Rightarrow>
          if val = 0 then initialize_state_a2 (note_empty_cell s row col) rest
          else
            (case is_unsolvable_a2 s row col val of
               Inl e \<Rightarrow> Inl e
             | Inr True \<Rightarrow> Inl ValueError
             | Inr False \<Rightarrow>
                 (case sub_grid_key row col of
                    Inl e \<Rightarrow> Inl e
                  | Inr k \<Rightarrow>
                      initialize_state_a2
                        (s\<lparr>col_to_seen_vals := (col_to_seen_vals s)(col := insert val (col_to_seen_vals s col)),
                           row_to_seen_vals := (row_to_seen_vals s)(row := insert val (row_to_seen_vals s row)),
                           grid_to_cells := (grid_to_cells s)(k := insert val (grid_to_cells s k))\<rparr>)
                        rest)))"

text \<open>
  The constructor call \<open>PartialSudokuState(grid)\<close>: both running choices start at
  \<open>n = 9\<close>.
\<close>

definition PartialSudokuState :: "grid \<Rightarrow> error + partial_state" where
  "PartialSudokuState grid =
     initialize_state_a2
       \<lparr>board = grid, row_to_seen_vals = (\<lambda>_. {}), col_to_seen_vals = (\<lambda>_. {}),
        grid_to_cells = (\<lambda>_. {}), empty_cells = [],
        min_empty_row = 9, min_empty_col = 9,
        row_to_empty_cells = (\<lambda>_. None), col_to_empty_cells_count = (\<lambda>_. None)\<rparr>
       all_cells"

text \<open>
  \<open>choose_cell\<close>, as the relation between the state before, the outcome and the state
  after.  Reading \<open>self.row_to_empty_cells[self.min_empty_row]\<close> creates a missing key.
  When the cell \<open>(min_empty_row, min_empty_col)\<close> is in that set it is returned;
  otherwise \<open>set.pop()\<close> removes and returns one element of the set, whichever the
  interpreter's hash table yields, and raises \<open>KeyError\<close> on the empty set.
\<close>

inductive choose_cell_a2 :: "partial_state \<Rightarrow> error + cell \<Rightarrow> partial_state \<Rightarrow> bool" where
  both: "(min_empty_row s, min_empty_col s) \<in> lookup_set (row_to_empty_cells s) (min_empty_row s) \<Longrightarrow>
         choose_cell_a2 s (Inr (min_empty_row s, min_empty_col s)) s"
| popped: "(min_empty_row s, min_empty_col s) \<notin> lookup_set (row_to_empty_cells s) (min_empty_row s) \<Longrightarrow>
           p \<in> lookup_set (row_to_empty_cells s) (min_empty_row s) \<Longrightarrow>
           choose_cell_a2 s (Inr p)
             (s\<lparr>row_to_empty_cells := (row_to_empty_cells s)
                   (min_empty_row s \<mapsto> lookup_set (row_to_empty_cells s) (min_empty_row s) - {p})\<rparr>)"
| no_cell: "lookup_set (row_to_empty_cells s) (min_empty_row s) = {} \<Longrightarrow>
            choose_cell_a2 s (Inl KeyError)
              (s\<lparr>row_to_empty_cells := (row_to_empty_cells s)(min_empty_row s \<mapsto> {})\<rparr>)"

section \<open>Specification vocabulary\<close>

text \<open>
  The cell at \<open>(row, col)\<close> of a well-formed board, the 81 coordinates, and the 27 units
  (nine rows, nine columns, nine 3x3 boxes), each as the list of its nine cells.
\<close>

definition cell_at :: "grid \<Rightarrow> cell \<Rightarrow> int" where
  "cell_at g p = g ! nat (fst p) ! nat (snd p)"

definition cells :: "cell set" where
  "cells = {0..8} \<times> {0..8}"

definition is_9x9 :: "grid \<Rightarrow> bool" where
  "is_9x9 g \<longleftrightarrow> length g = 9 \<and> (\<forall>r\<in>set g. length r = 9)"

definition entries_0_to_9 :: "grid \<Rightarrow> bool" where
  "entries_0_to_9 g \<longleftrightarrow> (\<forall>r\<in>set g. \<forall>v\<in>set r. 0 \<le> v \<and> v \<le> 9)"

definition row_cells :: "int \<Rightarrow> cell list" where
  "row_cells r = map (\<lambda>c. (r, c)) [0..8]"

definition col_cells :: "int \<Rightarrow> cell list" where
  "col_cells c = map (\<lambda>r. (r, c)) [0..8]"

definition box_cells :: "int \<times> int \<Rightarrow> cell list" where
  "box_cells k =
     concat (map (\<lambda>r. map (\<lambda>c. (r, c)) [3 * snd k..3 * snd k + 2]) [3 * fst k..3 * fst k + 2])"

definition box_keys :: "(int \<times> int) list" where
  "box_keys = concat (map (\<lambda>a. map (\<lambda>b. (a, b)) [0..2]) [0..2])"

definition units :: "cell list list" where
  "units = map row_cells [0..8] @ map col_cells [0..8] @ map box_cells box_keys"

text \<open>A list of nine entries contains each digit 1 to 9 exactly once.\<close>

definition each_digit_once :: "int list \<Rightarrow> bool" where
  "each_digit_once xs \<longleftrightarrow> (\<forall>d\<in>set [1..9]. count_list xs d = 1)"

definition valid_solution :: "grid \<Rightarrow> bool" where
  "valid_solution g \<longleftrightarrow> is_9x9 g \<and> (\<forall>u\<in>set units. each_digit_once (map (cell_at g) u))"

text \<open>Every cell filled in \<open>g\<close> holds the same value in \<open>out\<close>.\<close>

definition keeps_clues :: "grid \<Rightarrow> grid \<Rightarrow> bool" where
  "keeps_clues g out \<longleftrightarrow> (\<forall>p\<in>set all_cells. cell_at g p \<noteq> 0 \<longrightarrow> cell_at out p = cell_at g p)"

text \<open>\<open>sol\<close> is a valid completion of the puzzle \<open>g\<close>.\<close>

definition completes :: "grid \<Rightarrow> grid \<Rightarrow> bool" where
  "completes g sol \<longleftrightarrow> valid_solution sol \<and> keeps_clues g sol"

text \<open>Some non-zero value occurs twice in one unit.\<close>

definition duplicate_clue :: "grid \<Rightarrow> bool" where
  "duplicate_clue g \<longleftrightarrow> (\<exists>u\<in>set units. \<not> distinct (filter (\<lambda>v. v \<noteq> 0) (map (cell_at g) u)))"

text \<open>The number of empty cells of a board.\<close>

definition count_empty :: "grid \<Rightarrow> nat" where
  "count_empty g = length (filter (\<lambda>p. cell_at g p = 0) all_cells)"

subsection \<open>The invariant of the search\<close>

text \<open>
  Two different cells share a row, a column or a box.
\<close>

definition box_key :: "cell \<Rightarrow> int \<times> int" where
  "box_key p = (fst p div 3, snd p div 3)"

definition same_unit :: "cell \<Rightarrow> cell \<Rightarrow> bool" where
  "same_unit p q \<longleftrightarrow> fst p = fst q \<or> snd p = snd q \<or> box_key p = box_key q"

text \<open>
  \<open>tracked P s\<close>: the bookkeeping of \<open>s\<close> describes exactly the cells in \<open>P\<close> of its
  board: the seen-tables hold the non-zero values of these cells, the empty cells are
  those of them holding 0 (each once), and no two of them in one unit hold the same
  non-zero value.
\<close>

definition tracked :: "cell set \<Rightarrow> state \<Rightarrow> bool" where
  "tracked P s \<longleftrightarrow>
     (\<forall>r. row_to_seen_vals s r = {v. v \<noteq> 0 \<and> (\<exists>p\<in>P. fst p = r \<and> cell_at (board s) p = v)}) \<and>
     (\<forall>c. col_to_seen_vals s c = {v. v \<noteq> 0 \<and> (\<exists>p\<in>P. snd p = c \<and> cell_at (board s) p = v)}) \<and>
     (\<forall>k. grid_to_cells s k = {v. v \<noteq> 0 \<and> (\<exists>p\<in>P. box_key p = k \<and> cell_at (board s) p = v)}) \<and>
     distinct (empty_cells s) \<and>
     set (empty_cells s) = {p\<in>P. cell_at (board s) p = 0} \<and>
     (\<forall>p\<in>P. \<forall>q\<in>P. p \<noteq> q \<and> same_unit p q \<and> cell_at (board s) p \<noteq> 0 \<longrightarrow> cell_at (board s) p \<noteq> cell_at (board s) q)"

definition consistent :: "state \<Rightarrow> bool" where
  "consistent s \<longleftrightarrow> is_9x9 (board s) \<and> tracked cells s"

text \<open>\<open>b'\<close> is \<open>b\<close> with some of its empty cells filled with digits 1 to 9.\<close>

definition fills :: "grid \<Rightarrow> grid \<Rightarrow> bool" where
  "fills b b' \<longleftrightarrow>
     (\<forall>p\<in>cells. (cell_at b p \<noteq> 0 \<longrightarrow> cell_at b' p = cell_at b p) \<and> (cell_at b p = 0 \<longrightarrow> cell_at b' p = 0 \<or> (1 \<le> cell_at b' p \<and> cell_at b' p \<le> 9)))"

text \<open>Some two cells of \<open>P\<close> in one unit hold the same non-zero value.\<close>

definition clash :: "grid \<Rightarrow> cell set \<Rightarrow> bool" where
  "clash b P \<longleftrightarrow> (\<exists>p\<in>P. \<exists>q\<in>P. p \<noteq> q \<and> same_unit p q \<and> cell_at b p \<noteq> 0 \<and> cell_at b p = cell_at b q)"

text \<open>
  What a call of the search leaves behind: after \<open>None\<close> the variables are as before the
  call; after success the returned board is the board of the final state, complete, and
  an extension of the one the call started from.
\<close>

definition search_post :: "state \<Rightarrow> grid option \<Rightarrow> state \<Rightarrow> bool" where
  "search_post s res s' \<longleftrightarrow>
     (case res of
        None \<Rightarrow> s' = s
      | Some g \<Rightarrow> g = board s' \<and> consistent s' \<and> empty_cells s' = [] \<and> fills (board s) (board s'))"

text \<open>
  Invariant I2: \<open>empty_cells\<close> lists exactly the cells of the board that hold 0, each
  once.
\<close>

definition empty_cells_exact :: "state \<Rightarrow> bool" where
  "empty_cells_exact s \<longleftrightarrow>
     distinct (empty_cells s) \<and>
     set (empty_cells s) = set (filter (\<lambda>p. cell_at (board s) p = 0) all_cells)"

text \<open>
  \<open>empty_cells\<close> lists the empty cells of the board in row-major order; and: where the
  board has an empty cell, \<open>choose_cell\<close> returns the last of them in that order.
\<close>

definition row_major :: "state \<Rightarrow> bool" where
  "row_major s \<longleftrightarrow> empty_cells s = filter (\<lambda>p. cell_at (board s) p = 0) all_cells"





text \<open>The seen-tables hold nothing outside rows and columns 0 to 8 and the nine boxes.\<close>

definition tables_in_range :: "state \<Rightarrow> bool" where
  "tables_in_range s \<longleftrightarrow>
     (\<forall>r. r \<notin> {0..8} \<longrightarrow> row_to_seen_vals s r = {}) \<and>
     (\<forall>c. c \<notin> {0..8} \<longrightarrow> col_to_seen_vals s c = {}) \<and>
     (\<forall>k. k \<notin> {0..2} \<times> {0..2} \<longrightarrow> grid_to_cells s k = {})"

text \<open>
  The variables as the nested loops of \<open>solve_sudoku\<close> leave them for the board
  \<open>sudoku\<close>.
\<close>

definition populated :: "grid \<Rightarrow> state" where
  "populated sudoku =
     (case populate (initial_state sudoku) all_cells of
        Inl e \<Rightarrow> initial_state sudoku
      | Inr (flag, s) \<Rightarrow> s)"

text \<open>
  A placement followed by taking it back: with lines 70 to 76 and 82 to 87 of the final
  solver, and with \<open>place_digit\<close> and \<open>revert_state\<close> of \<open>SudokuState\<close>.
\<close>

definition place_then_undo :: "state \<Rightarrow> int \<Rightarrow> int \<Rightarrow> int \<Rightarrow> error + state" where
  "place_then_undo s row col digit =
     (case place s row col digit of Inl e \<Rightarrow> Inl e | Inr s1 \<Rightarrow> undo s1 row col digit)"

definition place_then_revert :: "state \<Rightarrow> int \<Rightarrow> int \<Rightarrow> int \<Rightarrow> error + state" where
  "place_then_revert s row col val =
     (case place_digit s row col val of Inl e \<Rightarrow> Inl e | Inr s1 \<Rightarrow> revert_state s1 row col val)"

subsection \<open>Example boards\<close>

definition solved_grid :: grid where
  "solved_grid =
     [[5,3,4,6,7,8,9,1,2],[6,7,2,1,9,5,3,4,8],[1,9,8,3,4,2,5,6,7],
      [8,5,9,7,6,1,4,2,3],[4,2,6,8,5,3,7,9,1],[7,1,3,9,2,4,8,5,6],
      [9,6,1,5,3,7,2,8,4],[2,8,7,4,1,9,6,3,5],[3,4,5,2,8,6,1,7,9]]"

text \<open>Three cells of the solved board cleared: one in row 0, two in row 8.\<close>

definition puzzle_grid :: grid where
  "puzzle_grid =
     [[0,3,4,6,7,8,9,1,2],[6,7,2,1,9,5,3,4,8],[1,9,8,3,4,2,5,6,7],
      [8,5,9,7,6,1,4,2,3],[4,2,6,8,5,3,7,9,1],[7,1,3,9,2,4,8,5,6],
      [9,6,1,5,3,7,2,8,4],[2,8,7,4,1,9,6,3,5],[3,4,5,2,8,6,1,0,0]]"

text \<open>
  No clue is duplicated, yet there is no completion: row 0 lacks only 5 and column 0
  holds a 5, so cell (0, 0) has no candidate.  The search first fills cell (8, 8) with its
  only candidate 9, fails on cell (3, 1), and takes the 9 back.
\<close>

definition dead_grid :: grid where
  "dead_grid =
     [[0,3,4,6,7,8,9,1,2],[6,7,2,1,9,5,3,4,8],[1,9,8,3,4,2,5,6,7],
      [5,0,9,7,6,1,4,2,3],[4,2,6,8,5,3,7,9,1],[7,1,3,9,2,4,8,5,6],
      [9,6,1,5,3,7,2,8,4],[2,8,7,4,1,9,6,3,5],[3,4,5,2,8,6,1,7,0]]"

text \<open>Two 5s in row 0.\<close>

definition duplicate_grid :: grid where
  "duplicate_grid =
     [[5,5,0,0,0,0,0,0,0],[0,0,0,0,0,0,0,0,0],[0,0,0,0,0,0,0,0,0],
      [0,0,0,0,0,0,0,0,0],[0,0,0,0,0,0,0,0,0],[0,0,0,0,0,0,0,0,0],
      [0,0,0,0,0,0,0,0,0],[0,0,0,0,0,0,0,0,0],[0,0,0,0,0,0,0,0,0]]"

text \<open>The state of the all-empty board: nothing seen, every cell empty.\<close>

definition empty_grid :: grid where
  "empty_grid = replicate 9 (replicate 9 0)"

definition empty_state :: state where
  "empty_state =
     \<lparr>board = empty_grid, row_to_seen_vals = (\<lambda>_. {}), col_to_seen_vals = (\<lambda>_. {}),
      grid_to_cells = (\<lambda>_. {}), empty_cells = all_cells\<rparr>"

section \<open>Proofs\<close>

subsection \<open>Reading and writing cells\<close>

lemma all_cells_set: "set all_cells = cells"
  by (auto simp: all_cells_def cells_def)

lemma distinct_all_cells: "distinct all_cells"
  unfolding all_cells_def
  by (rule distinct_concat) (auto simp: distinct_map inj_on_def)

lemma norm_index_cell: "0 \<le> i \<Longrightarrow> i < int (length xs) \<Longrightarrow> norm_index xs i = Some (nat i)"
  by (simp add: norm_index_def)

lemma get_cell_at:
  assumes "is_9x9 g" "p \<in> cells"
  shows "get_cell g (fst p) (snd p) = Inr (cell_at g p)"
  using assms
  by (auto simp: is_9x9_def cells_def get_cell_def getitem_def norm_index_def cell_at_def)

lemma is_9x9_nth: "is_9x9 g \<Longrightarrow> i < 9 \<Longrightarrow> length (g ! i) = 9"
  by (simp add: is_9x9_def)

lemma set_cell_ok:
  assumes "is_9x9 g" "p \<in> cells"
  shows "\<exists>g'. set_cell g (fst p) (snd p) v = Inr g' \<and> is_9x9 g' \<and>
           (\<forall>q\<in>cells. cell_at g' q = (if q = p then v else cell_at g q))"
proof -
  obtain r c where p: "p = (r, c)" by (cases p)
  with assms have rc: "0 \<le> r" "r \<le> 8" "0 \<le> c" "c \<le> 8" by (auto simp: cells_def)
  have len: "length g = 9" and rows: "\<And>i. i < 9 \<Longrightarrow> length (g ! i) = 9"
    using assms(1) by (auto simp: is_9x9_def)
  let ?g' = "g[nat r := (g ! nat r)[nat c := v]]"
  have 1: "set_cell g r c v = Inr ?g'"
    using rc len rows[of "nat r"]
    by (simp add: set_cell_def getitem_def setitem_def norm_index_def)
  have 2: "is_9x9 ?g'"
    using assms(1) rc unfolding is_9x9_def
    by (auto dest!: set_update_subset_insert[THEN subsetD])
  have 3: "cell_at ?g' q = (if q = p then v else cell_at g q)" if "q \<in> cells" for q
  proof -
    obtain r' c' where q: "q = (r', c')" by (cases q)
    with that have q': "0 \<le> r'" "r' \<le> 8" "0 \<le> c'" "c' \<le> 8" by (auto simp: cells_def)
    show ?thesis
      using rc q' len rows[of "nat r"] rows[of "nat r'"]
      by (auto simp: cell_at_def p q nth_list_update)
  qed
  show ?thesis using 1 2 3 by (auto simp: p)
qed

lemma grid_eqI:
  assumes "is_9x9 g" "is_9x9 h" "\<forall>p\<in>cells. cell_at g p = cell_at h p"
  shows "g = h"
proof (rule nth_equalityI)
  show "length g = length h" using assms by (simp add: is_9x9_def)
next
  fix i assume "i < length g"
  then have i: "i < 9" using assms(1) by (simp add: is_9x9_def)
  have li: "length (g ! i) = 9" "length (h ! i) = 9"
    using assms(1,2) i by (auto simp: is_9x9_def)
  show "g ! i = h ! i"
  proof (rule nth_equalityI)
    show "length (g ! i) = length (h ! i)" using li by simp
  next
    fix j assume "j < length (g ! i)"
    then have j: "j < 9" using li by simp
    have "(int i, int j) \<in> cells" using i j by (auto simp: cells_def)
    from assms(3)[rule_format, OF this] show "g ! i ! j = h ! i ! j"
      by (simp add: cell_at_def)
  qed
qed

subsection \<open>The bookkeeping invariant\<close>

lemma inv_last_cell:
  assumes "consistent s" "empty_cells s \<noteq> []"
  shows "last (empty_cells s) \<in> cells" "cell_at (board s) (last (empty_cells s)) = 0"
proof -
  have "last (empty_cells s) \<in> set (empty_cells s)" using assms(2) by simp
  moreover have "set (empty_cells s) = {p\<in>cells. cell_at (board s) p = 0}"
    using assms(1) by (simp add: consistent_def tracked_def)
  ultimately show "last (empty_cells s) \<in> cells" "cell_at (board s) (last (empty_cells s)) = 0"
    by auto
qed

lemma tracked_rows:
  assumes "tracked P s"
  shows "row_to_seen_vals s r = {v. v \<noteq> 0 \<and> (\<exists>p\<in>P. fst p = r \<and> cell_at (board s) p = v)}"
proof -
  from assms have "\<forall>r. row_to_seen_vals s r = {v. v \<noteq> 0 \<and> (\<exists>p\<in>P. fst p = r \<and> cell_at (board s) p = v)}"
    unfolding tracked_def by (elim conjE) assumption
  then show ?thesis ..
qed

lemma tracked_cols:
  assumes "tracked P s"
  shows "col_to_seen_vals s c = {v. v \<noteq> 0 \<and> (\<exists>p\<in>P. snd p = c \<and> cell_at (board s) p = v)}"
proof -
  from assms have "\<forall>c. col_to_seen_vals s c = {v. v \<noteq> 0 \<and> (\<exists>p\<in>P. snd p = c \<and> cell_at (board s) p = v)}"
    unfolding tracked_def by (elim conjE) assumption
  then show ?thesis ..
qed

lemma tracked_boxes:
  assumes "tracked P s"
  shows "grid_to_cells s k = {v. v \<noteq> 0 \<and> (\<exists>p\<in>P. box_key p = k \<and> cell_at (board s) p = v)}"
proof -
  from assms have "\<forall>k. grid_to_cells s k = {v. v \<noteq> 0 \<and> (\<exists>p\<in>P. box_key p = k \<and> cell_at (board s) p = v)}"
    unfolding tracked_def by (elim conjE) assumption
  then show ?thesis ..
qed

lemma tracked_distinct: "tracked P s \<Longrightarrow> distinct (empty_cells s)"
  unfolding tracked_def by (elim conjE) assumption

lemma tracked_empty: "tracked P s \<Longrightarrow> set (empty_cells s) = {p\<in>P. cell_at (board s) p = 0}"
  unfolding tracked_def by (elim conjE) assumption

lemma tracked_nodup:
  assumes "tracked P s" "p \<in> P" "q \<in> P" "p \<noteq> q" "same_unit p q" "cell_at (board s) p \<noteq> 0"
  shows "cell_at (board s) p \<noteq> cell_at (board s) q"
proof -
  from assms(1) have "\<forall>p\<in>P. \<forall>q\<in>P. p \<noteq> q \<and> same_unit p q \<and> cell_at (board s) p \<noteq> 0 \<longrightarrow> cell_at (board s) p \<noteq> cell_at (board s) q"
    unfolding tracked_def by (elim conjE) assumption
  then show ?thesis using assms(2-6) by blast
qed

lemma trackedI:
  assumes "\<And>r. row_to_seen_vals s r = {v. v \<noteq> 0 \<and> (\<exists>p\<in>P. fst p = r \<and> cell_at (board s) p = v)}"
    and "\<And>c. col_to_seen_vals s c = {v. v \<noteq> 0 \<and> (\<exists>p\<in>P. snd p = c \<and> cell_at (board s) p = v)}"
    and "\<And>k. grid_to_cells s k = {v. v \<noteq> 0 \<and> (\<exists>p\<in>P. box_key p = k \<and> cell_at (board s) p = v)}"
    and "distinct (empty_cells s)"
    and "set (empty_cells s) = {p\<in>P. cell_at (board s) p = 0}"
    and "\<And>p q. p \<in> P \<Longrightarrow> q \<in> P \<Longrightarrow> p \<noteq> q \<Longrightarrow> same_unit p q \<Longrightarrow> cell_at (board s) p \<noteq> 0
           \<Longrightarrow> cell_at (board s) p \<noteq> cell_at (board s) q"
  shows "tracked P s"
  unfolding tracked_def
proof (intro conjI allI ballI impI)
  fix p q assume "p \<in> P" "q \<in> P" "p \<noteq> q \<and> same_unit p q \<and> cell_at (board s) p \<noteq> 0"
  then show "cell_at (board s) p \<noteq> cell_at (board s) q" using assms(6)[of p q] by blast
qed (rule assms)+

lemma set_butlast_distinct:
  assumes "distinct xs" "xs \<noteq> []"
  shows "set (butlast xs) = set xs - {last xs}"
proof -
  have "xs = butlast xs @ [last xs]" using assms(2) by simp
  then have "distinct (butlast xs @ [last xs])" "set xs = set (butlast xs @ [last xs])"
    using assms(1) by simp_all
  then show ?thesis by auto
qed

lemma seen_mem_iff:
  "d \<noteq> z \<Longrightarrow> (d \<in> {v. v \<noteq> z \<and> (\<exists>p\<in>P. f p = k \<and> g p = v)}) = (\<exists>q\<in>P. k = f q \<and> g q = d)"
  by blast

lemma legal_iff:
  assumes "tracked P s" "d \<noteq> 0"
  shows "(d \<notin> row_to_seen_vals s r \<and> d \<notin> col_to_seen_vals s c
           \<and> d \<notin> grid_to_cells s (r div 3, c div 3))
         \<longleftrightarrow> (\<forall>q\<in>P. same_unit (r, c) q \<longrightarrow> cell_at (board s) q \<noteq> d)"
proof -
  have 1: "d \<in> row_to_seen_vals s r \<longleftrightarrow> (\<exists>q\<in>P. r = fst q \<and> cell_at (board s) q = d)"
    unfolding tracked_rows[OF assms(1)] using assms(2) by (rule seen_mem_iff)
  have 2: "d \<in> col_to_seen_vals s c \<longleftrightarrow> (\<exists>q\<in>P. c = snd q \<and> cell_at (board s) q = d)"
    unfolding tracked_cols[OF assms(1)] using assms(2) by (rule seen_mem_iff)
  have 3: "d \<in> grid_to_cells s (r div 3, c div 3) \<longleftrightarrow> (\<exists>q\<in>P. (r div 3, c div 3) = box_key q \<and> cell_at (board s) q = d)"
    unfolding tracked_boxes[OF assms(1)] using assms(2) by (rule seen_mem_iff)
  have su: "same_unit (r, c) q \<longleftrightarrow> r = fst q \<or> c = snd q \<or> (r div 3, c div 3) = box_key q" for q
    by (simp add: same_unit_def box_key_def)
  show ?thesis
    unfolding 1 2 3 su by blast
qed

lemma tracked_place:
  assumes tr: "tracked P s" and pP: "p \<in> P" and p0: "cell_at (board s) p = 0" and d: "d \<noteq> 0"
    and last: "empty_cells s \<noteq> []" "last (empty_cells s) = p"
    and free: "\<forall>q\<in>P. same_unit p q \<longrightarrow> cell_at (board s) q \<noteq> d"
    and at': "\<forall>q\<in>P. cell_at b' q = (if q = p then d else cell_at (board s) q)"
  shows "tracked P (s\<lparr>board := b',
                      empty_cells := butlast (empty_cells s),
                      row_to_seen_vals := (row_to_seen_vals s)(fst p := insert d (row_to_seen_vals s (fst p))),
                      col_to_seen_vals := (col_to_seen_vals s)(snd p := insert d (col_to_seen_vals s (snd p))),
                      grid_to_cells := (grid_to_cells s)
                        ((fst p div 3, snd p div 3) := insert d (grid_to_cells s (fst p div 3, snd p div 3)))\<rparr>)"
proof -
  note rows = tracked_rows[OF tr] and cols = tracked_cols[OF tr] and boxes = tracked_boxes[OF tr]
    and dist = tracked_distinct[OF tr] and emp = tracked_empty[OF tr]
  have nodup: "\<And>q1 q2. q1 \<in> P \<Longrightarrow> q2 \<in> P \<Longrightarrow> q1 \<noteq> q2 \<Longrightarrow> same_unit q1 q2 \<Longrightarrow>
                 cell_at (board s) q1 \<noteq> 0 \<Longrightarrow> cell_at (board s) q1 \<noteq> cell_at (board s) q2"
    using tr by (rule tracked_nodup)
  have at_b': "\<And>q. q \<in> P \<Longrightarrow> cell_at b' q = (if q = p then d else cell_at (board s) q)"
    using at' by blast
  have bk: "(fst p div 3, snd p div 3) = box_key p" by (simp add: box_key_def)
  have R: "((row_to_seen_vals s)(fst p := insert d (row_to_seen_vals s (fst p)))) r
           = {v. v \<noteq> 0 \<and> (\<exists>q\<in>P. fst q = r \<and> cell_at b' q = v)}" for r
    unfolding rows using pP p0 d by (auto simp: at_b')
  have C: "((col_to_seen_vals s)(snd p := insert d (col_to_seen_vals s (snd p)))) c
           = {v. v \<noteq> 0 \<and> (\<exists>q\<in>P. snd q = c \<and> cell_at b' q = v)}" for c
    unfolding cols using pP p0 d by (auto simp: at_b')
  have K: "((grid_to_cells s)(box_key p := insert d (grid_to_cells s (box_key p)))) k
           = {v. v \<noteq> 0 \<and> (\<exists>q\<in>P. box_key q = k \<and> cell_at b' q = v)}" for k
    unfolding boxes using pP p0 d by (auto simp: at_b')
  have D: "distinct (butlast (empty_cells s))" using dist by (rule distinct_butlast)
  have "set (butlast (empty_cells s)) = {q\<in>P. cell_at (board s) q = 0} - {p}"
    using set_butlast_distinct[OF dist last(1)] last(2) emp by simp
  also have "\<dots> = {q\<in>P. cell_at b' q = 0}"
    using d pP p0 by (auto simp: at_b' split: if_splits)
  finally have E: "set (butlast (empty_cells s)) = {q\<in>P. cell_at b' q = 0}" .
  have N: "cell_at b' q1 \<noteq> cell_at b' q2"
    if "q1 \<in> P" "q2 \<in> P" "q1 \<noteq> q2" "same_unit q1 q2" "cell_at b' q1 \<noteq> 0" for q1 q2
  proof -
    have sym: "same_unit q2 q1" using that(4) by (auto simp: same_unit_def)
    consider "q1 = p" | "q2 = p" "q1 \<noteq> p" | "q1 \<noteq> p" "q2 \<noteq> p" by blast
    then show ?thesis
    proof cases
      case 1
      then have "cell_at b' q1 = d" "cell_at b' q2 = cell_at (board s) q2"
        using that(1,2,3) by (simp_all add: at_b')
      moreover have "cell_at (board s) q2 \<noteq> d" using free that(2,4) 1 by blast
      ultimately show ?thesis by simp
    next
      case 2
      then have "cell_at b' q2 = d" "cell_at b' q1 = cell_at (board s) q1"
        using that(1,2,3) by (simp_all add: at_b')
      moreover have "cell_at (board s) q1 \<noteq> d" using free that(1) sym 2 by blast
      ultimately show ?thesis by simp
    next
      case 3
      then have "cell_at b' q2 = cell_at (board s) q2" "cell_at b' q1 = cell_at (board s) q1"
        using that(1,2) by (simp_all add: at_b')
      then show ?thesis using nodup[OF that(1,2,3,4)] that(5) by simp
    qed
  qed
  show ?thesis
    unfolding bk
  proof (rule trackedI)
    fix q1 q2
    assume "q1 \<in> P" "q2 \<in> P" "q1 \<noteq> q2" "same_unit q1 q2"
      "cell_at (board (s\<lparr>board := b',
                      empty_cells := butlast (empty_cells s),
                      row_to_seen_vals := (row_to_seen_vals s)(fst p := insert d (row_to_seen_vals s (fst p))),
                      col_to_seen_vals := (col_to_seen_vals s)(snd p := insert d (col_to_seen_vals s (snd p))),
                      grid_to_cells := (grid_to_cells s)
                        (box_key p := insert d (grid_to_cells s (box_key p)))\<rparr>)) q1 \<noteq> 0"
    then show "cell_at (board (s\<lparr>board := b',
                      empty_cells := butlast (empty_cells s),
                      row_to_seen_vals := (row_to_seen_vals s)(fst p := insert d (row_to_seen_vals s (fst p))),
                      col_to_seen_vals := (col_to_seen_vals s)(snd p := insert d (col_to_seen_vals s (snd p))),
                      grid_to_cells := (grid_to_cells s)
                        (box_key p := insert d (grid_to_cells s (box_key p)))\<rparr>)) q1
               \<noteq> cell_at (board (s\<lparr>board := b',
                      empty_cells := butlast (empty_cells s),
                      row_to_seen_vals := (row_to_seen_vals s)(fst p := insert d (row_to_seen_vals s (fst p))),
                      col_to_seen_vals := (col_to_seen_vals s)(snd p := insert d (col_to_seen_vals s (snd p))),
                      grid_to_cells := (grid_to_cells s)
                        (box_key p := insert d (grid_to_cells s (box_key p)))\<rparr>)) q2"
      using N[of q1 q2] by simp
  qed (use R C K D E in \<open>simp_all del: fun_upd_apply\<close>)
qed


lemma place_ok:
  assumes inv: "consistent s" and ne: "empty_cells s \<noteq> []" and p: "p = last (empty_cells s)"
    and d: "d \<noteq> 0"
    and free: "d \<notin> row_to_seen_vals s (fst p) \<and> d \<notin> col_to_seen_vals s (snd p)
           \<and> d \<notin> grid_to_cells s (fst p div 3, snd p div 3)"
  shows "\<exists>s1. place s (fst p) (snd p) d = Inr s1 \<and> consistent s1 \<and> undo s1 (fst p) (snd p) d = Inr s
            \<and> empty_cells s1 = butlast (empty_cells s)
            \<and> (\<forall>q\<in>cells. cell_at (board s1) q = (if q = p then d else cell_at (board s) q))"
proof -
  have g9: "is_9x9 (board s)" and tr: "tracked cells s" using inv by (simp_all add: consistent_def)
  have pc: "p \<in> cells" and p0: "cell_at (board s) p = 0"
    using inv_last_cell[OF inv ne] p by simp_all
  obtain b' where b': "set_cell (board s) (fst p) (snd p) d = Inr b'" "is_9x9 b'"
      "\<forall>q\<in>cells. cell_at b' q = (if q = p then d else cell_at (board s) q)"
    using set_cell_ok[OF g9 pc, of d] by blast
  define s1 where "s1 = s\<lparr>board := b',
                      empty_cells := butlast (empty_cells s),
                      row_to_seen_vals := (row_to_seen_vals s)(fst p := insert d (row_to_seen_vals s (fst p))),
                      col_to_seen_vals := (col_to_seen_vals s)(snd p := insert d (col_to_seen_vals s (snd p))),
                      grid_to_cells := (grid_to_cells s)
                        ((fst p div 3, snd p div 3) := insert d (grid_to_cells s (fst p div 3, snd p div 3)))\<rparr>"
  have pl: "place s (fst p) (snd p) d = Inr s1"
    by (simp add: place_def b'(1) ne s1_def)
  have free': "\<forall>q\<in>cells. same_unit p q \<longrightarrow> cell_at (board s) q \<noteq> d"
    using legal_iff[OF tr d, of "fst p" "snd p"] free by simp
  have tr1: "tracked cells s1"
    unfolding s1_def using tr pc p0 d ne p[symmetric] free' b'(3) by (rule tracked_place)
  have inv1: "consistent s1" using tr1 b'(2) by (simp add: consistent_def s1_def)
  obtain b2 where b2: "set_cell b' (fst p) (snd p) 0 = Inr b2" "is_9x9 b2"
      "\<forall>q\<in>cells. cell_at b2 q = (if q = p then 0 else cell_at b' q)"
    using set_cell_ok[OF b'(2) pc, of 0] by blast
  have "\<forall>q\<in>cells. cell_at b2 q = cell_at (board s) q"
    using b2(3) b'(3) p0 by simp
  then have restored: "b2 = board s" using grid_eqI[OF b2(2) g9] by blast
  have app: "butlast (empty_cells s) @ [p] = empty_cells s"
    using ne p by simp
  have un: "undo s1 (fst p) (snd p) d = Inr s"
    using free
    by (simp add: undo_def s1_def b2(1) restored app)
  show ?thesis
    using pl inv1 un b'(3) by (auto simp: s1_def)
qed

subsection \<open>Units and valid solutions\<close>

lemma count_list_distinct: "distinct xs \<Longrightarrow> x \<in> set xs \<Longrightarrow> count_list xs x = 1"
  by (induction xs) auto

lemma card_digits: "card {1..9::int} = 9"
  by simp

lemma each_digit_onceI:
  assumes "length xs = 9" "distinct xs" "set xs \<subseteq> {1..9}"
  shows "each_digit_once xs"
proof -
  have "card (set xs) = 9" using assms(1,2) by (simp add: distinct_card)
  then have "card (set xs) = card {1..9::int}" by simp
  with assms(3) have "set xs = {1..9}"
    by (intro card_subset_eq) simp_all
  then show ?thesis
    unfolding each_digit_once_def using assms(2) by (simp add: count_list_distinct)
qed

lemma each_digit_onceD:
  assumes "length xs = 9" "each_digit_once xs"
  shows "distinct xs" "set xs = {1..9}"
proof -
  have one: "\<And>d. d \<in> {1..9} \<Longrightarrow> count_list xs d = 1"
    using assms(2) by (simp add: each_digit_once_def)
  have sub: "{1..9} \<subseteq> set xs"
  proof
    fix d :: int assume "d \<in> {1..9}"
    then have "count_list xs d \<noteq> 0" using one by simp
    then show "d \<in> set xs" by (simp add: count_list_0_iff)
  qed
  let ?X = "set xs \<union> {1..9}"
  have "sum (count_list xs) ?X = length xs"
    by (rule sum_count_set) simp_all
  moreover have "sum (count_list xs) ?X = sum (count_list xs) {1..9} + sum (count_list xs) (set xs - {1..9})"
    by (subst sum.union_disjoint[symmetric]) (auto intro: arg_cong2[where f=sum])
  moreover have "sum (count_list xs) {1..9} = 9"
    using one by simp
  ultimately have "sum (count_list xs) (set xs - {1..9}) = 0"
    using assms(1) by simp
  then have "\<forall>x\<in>set xs - {1..9}. count_list xs x = 0" by simp
  then have "set xs - {1..9} = {}"
    by (auto simp: count_list_0_iff)
  with sub show eq: "set xs = {1..9}" by blast
  then have "card (set xs) = length xs" using assms(1) by simp
  then show "distinct xs" by (rule card_distinct)
qed

lemma set_row_cells: "set (row_cells r) = {r} \<times> {0..8}"
  by (auto simp: row_cells_def)

lemma set_col_cells: "set (col_cells c) = {0..8} \<times> {c}"
  by (auto simp: col_cells_def)

lemma set_box_cells: "set (box_cells (a, b)) = {3 * a..3 * a + 2} \<times> {3 * b..3 * b + 2}"
  by (auto simp: box_cells_def)

lemma set_box_keys: "set box_keys = {0..2} \<times> {0..2}"
  by (auto simp: box_keys_def)

lemma distinct_row_cells: "distinct (row_cells r)"
  by (simp add: row_cells_def distinct_map inj_on_def)

lemma distinct_col_cells: "distinct (col_cells c)"
  by (simp add: col_cells_def distinct_map inj_on_def)

lemma distinct_box_cells: "distinct (box_cells k)"
  unfolding box_cells_def
  by (rule distinct_concat) (auto simp: distinct_map inj_on_def)

lemma length_row_cells: "length (row_cells r) = 9"
  by (simp add: row_cells_def)

lemma length_col_cells: "length (col_cells c) = 9"
  by (simp add: col_cells_def)

lemma length_box_cells: "length (box_cells k) = 9"
proof -
  have "length (box_cells k) = card (set (box_cells k))"
    using distinct_box_cells by (simp add: distinct_card)
  also have "\<dots> = card ({3 * fst k..3 * fst k + 2} \<times> {3 * snd k..3 * snd k + 2})"
    using set_box_cells[of "fst k" "snd k"] by simp
  also have "\<dots> = 9" by (simp add: card_cartesian_product)
  finally show ?thesis .
qed

lemma unit_cases:
  assumes "u \<in> set units"
  obtains r where "r \<in> {0..8}" "u = row_cells r"
  | c where "c \<in> {0..8}" "u = col_cells c"
  | a b where "a \<in> {0..2}" "b \<in> {0..2}" "u = box_cells (a, b)"
  using assms set_box_keys unfolding units_def by auto

lemma unit_props:
  assumes "u \<in> set units"
  shows "distinct u" "length u = 9" "set u \<subseteq> cells"
proof -
  show "distinct u"
    using assms by (rule unit_cases) (simp_all add: distinct_row_cells distinct_col_cells distinct_box_cells)
  show "length u = 9"
    using assms by (rule unit_cases) (simp_all add: length_row_cells length_col_cells length_box_cells)
  show "set u \<subseteq> cells"
    using assms
  proof (rule unit_cases)
    fix r :: int assume "r \<in> {0..8}" "u = row_cells r"
    then show ?thesis by (auto simp: set_row_cells cells_def)
  next
    fix c :: int assume "c \<in> {0..8}" "u = col_cells c"
    then show ?thesis by (auto simp: set_col_cells cells_def)
  next
    fix a b :: int assume "a \<in> {0..2}" "b \<in> {0..2}" "u = box_cells (a, b)"
    then show ?thesis by (auto simp: set_box_cells cells_def)
  qed
qed

lemma unit_same:
  assumes "u \<in> set units" "p \<in> set u" "q \<in> set u"
  shows "same_unit p q"
  using assms(1)
proof (rule unit_cases)
  fix r :: int assume "r \<in> {0..8}" "u = row_cells r"
  then show ?thesis using assms(2,3) by (auto simp: set_row_cells same_unit_def)
next
  fix c :: int assume "c \<in> {0..8}" "u = col_cells c"
  then show ?thesis using assms(2,3) by (auto simp: set_col_cells same_unit_def)
next
  fix a b :: int assume ab: "a \<in> {0..2}" "b \<in> {0..2}" "u = box_cells (a, b)"
  have "fst p div 3 = a" "snd p div 3 = b" "fst q div 3 = a" "snd q div 3 = b"
    using assms(2,3) ab(3) set_box_cells[of a b] by auto
  then show ?thesis by (simp add: same_unit_def box_key_def)
qed

lemma same_unit_shared:
  assumes "p \<in> cells" "q \<in> cells" "same_unit p q"
  shows "\<exists>u\<in>set units. p \<in> set u \<and> q \<in> set u"
proof -
  obtain r c where p: "p = (r, c)" by (cases p)
  obtain r' c' where q: "q = (r', c')" by (cases q)
  have rng: "0 \<le> r" "r \<le> 8" "0 \<le> c" "c \<le> 8" "0 \<le> r'" "r' \<le> 8" "0 \<le> c'" "c' \<le> 8"
    using assms(1,2) by (auto simp: cells_def p q)
  from assms(3) consider "r = r'" | "c = c'" | "r div 3 = r' div 3" "c div 3 = c' div 3"
    by (auto simp: same_unit_def box_key_def p q)
  then show ?thesis
  proof cases
    case 1
    have "row_cells r \<in> set units" using rng by (simp add: units_def)
    moreover have "p \<in> set (row_cells r)" "q \<in> set (row_cells r)"
      using rng 1 by (simp_all add: set_row_cells p q)
    ultimately show ?thesis by blast
  next
    case 2
    have "col_cells c \<in> set units" using rng by (simp add: units_def)
    moreover have "p \<in> set (col_cells c)" "q \<in> set (col_cells c)"
      using rng 2 by (simp_all add: set_col_cells p q)
    ultimately show ?thesis by blast
  next
    case 3
    have "(r div 3, c div 3) \<in> set box_keys" using rng by (auto simp: set_box_keys)
    then have "box_cells (r div 3, c div 3) \<in> set units" by (simp add: units_def)
    moreover have "p \<in> set (box_cells (r div 3, c div 3))" "q \<in> set (box_cells (r div 3, c div 3))"
      using rng 3 by (auto simp: set_box_cells p q)
    ultimately show ?thesis by blast
  qed
qed

lemma same_unit_refl: "same_unit p p"
  by (simp add: same_unit_def)

lemma valid_solution_iff:
  assumes "is_9x9 g"
  shows "valid_solution g \<longleftrightarrow>
           (\<forall>p\<in>cells. 1 \<le> cell_at g p \<and> cell_at g p \<le> 9) \<and>
           (\<forall>p\<in>cells. \<forall>q\<in>cells. p \<noteq> q \<and> same_unit p q \<longrightarrow> cell_at g p \<noteq> cell_at g q)"
    (is "?L \<longleftrightarrow> ?R1 \<and> ?R2")
proof
  assume L: ?L
  have u: "\<And>u. u \<in> set units \<Longrightarrow> distinct (map (cell_at g) u) \<and> set (map (cell_at g) u) = {1..9}"
  proof -
    fix u assume "u \<in> set units"
    then have "length (map (cell_at g) u) = 9" "each_digit_once (map (cell_at g) u)"
      using L unit_props(2) by (simp_all add: valid_solution_def)
    then show "distinct (map (cell_at g) u) \<and> set (map (cell_at g) u) = {1..9}"
      using each_digit_onceD by blast
  qed
  have R1: ?R1
  proof
    fix p assume p: "p \<in> cells"
    obtain u where "u \<in> set units" "p \<in> set u"
      using same_unit_shared[OF p p same_unit_refl] by blast
    then have "cell_at g p \<in> {1..9}" using u[of u] by auto
    then show "1 \<le> cell_at g p \<and> cell_at g p \<le> 9" by simp
  qed
  have R2: ?R2
  proof (intro ballI impI)
    fix p q assume pq: "p \<in> cells" "q \<in> cells" "p \<noteq> q \<and> same_unit p q"
    then obtain u where uu: "u \<in> set units" "p \<in> set u" "q \<in> set u"
      using same_unit_shared by blast
    have "inj_on (cell_at g) (set u)" using u[OF uu(1)] by (simp add: distinct_map)
    then show "cell_at g p \<noteq> cell_at g q" using uu(2,3) pq(3) by (auto dest: inj_onD)
  qed
  show "?R1 \<and> ?R2" using R1 R2 by blast
next
  assume R: "?R1 \<and> ?R2"
  have "each_digit_once (map (cell_at g) u)" if "u \<in> set units" for u
  proof (rule each_digit_onceI)
    show "length (map (cell_at g) u) = 9" using unit_props(2)[OF that] by simp
    have "inj_on (cell_at g) (set u)"
    proof (rule inj_onI)
      fix p q assume pq: "p \<in> set u" "q \<in> set u" "cell_at g p = cell_at g q"
      have "same_unit p q" using unit_same[OF that pq(1,2)] .
      moreover have "p \<in> cells" "q \<in> cells" using unit_props(3)[OF that] pq by auto
      ultimately show "p = q" using R pq(3) by blast
    qed
    then show "distinct (map (cell_at g) u)" using unit_props(1)[OF that] by (simp add: distinct_map)
    show "set (map (cell_at g) u) \<subseteq> {1..9}"
      using R unit_props(3)[OF that] by auto
  qed
  then show ?L using assms by (simp add: valid_solution_def)
qed

subsection \<open>Completions\<close>

lemma fills_refl: "fills b b"
  by (simp add: fills_def)

lemma fills_place:
  assumes "p \<in> cells" "cell_at b p = 0" "1 \<le> d" "d \<le> 9"
    and "\<forall>q\<in>cells. cell_at b1 q = (if q = p then d else cell_at b q)"
    and "fills b1 b2"
  shows "fills b b2"
  unfolding fills_def
proof (intro ballI conjI impI)
  fix q assume q: "q \<in> cells" and nz: "cell_at b q \<noteq> 0"
  then have "q \<noteq> p" using assms(2) by auto
  then have "cell_at b1 q = cell_at b q" using assms(5) q by simp
  then show "cell_at b2 q = cell_at b q" using assms(6) q nz by (simp add: fills_def)
next
  fix q assume q: "q \<in> cells" and z: "cell_at b q = 0"
  show "cell_at b2 q = 0 \<or> 1 \<le> cell_at b2 q \<and> cell_at b2 q \<le> 9"
  proof (cases "q = p")
    case True
    then have "cell_at b1 q = d" using assms(5) q by simp
    then have "cell_at b2 q = d" using assms(3,6) q by (simp add: fills_def)
    then show ?thesis using assms(3,4) by simp
  next
    case False
    then have "cell_at b1 q = 0" using assms(5) q z by simp
    then show ?thesis using assms(6) q by (simp add: fills_def)
  qed
qed

lemma completes_9x9: "completes b sol \<Longrightarrow> is_9x9 sol"
  by (simp add: completes_def valid_solution_def)

lemma completes_range:
  assumes "completes b sol" "p \<in> cells"
  shows "1 \<le> cell_at sol p" "cell_at sol p \<le> 9"
  using assms valid_solution_iff[OF completes_9x9[OF assms(1)]]
  by (simp_all add: completes_def)

lemma completes_distinct:
  assumes "completes b sol" "p \<in> cells" "q \<in> cells" "p \<noteq> q" "same_unit p q"
  shows "cell_at sol p \<noteq> cell_at sol q"
proof -
  have "\<forall>p\<in>cells. \<forall>q\<in>cells. p \<noteq> q \<and> same_unit p q \<longrightarrow> cell_at sol p \<noteq> cell_at sol q"
    using assms(1) valid_solution_iff[OF completes_9x9[OF assms(1)]]
    by (simp add: completes_def)
  then show ?thesis using assms(2-5) by blast
qed

lemma completes_keeps:
  assumes "completes b sol" "q \<in> cells" "cell_at b q \<noteq> 0"
  shows "cell_at sol q = cell_at b q"
  using assms by (simp add: completes_def keeps_clues_def all_cells_set)

lemma completes_place:
  assumes "completes b sol" "\<forall>q\<in>cells. cell_at b1 q = (if q = p then d else cell_at b q)" "cell_at sol p = d"
  shows "completes b1 sol"
proof -
  have "cell_at sol q = cell_at b1 q" if "q \<in> cells" "cell_at b1 q \<noteq> 0" for q
  proof (cases "q = p")
    case True
    then show ?thesis using assms(2,3) that by simp
  next
    case False
    then have "cell_at b1 q = cell_at b q" using assms(2) that by simp
    then show ?thesis using completes_keeps[OF assms(1) that(1)] that(2) by simp
  qed
  then show ?thesis
    using assms(1) by (simp add: completes_def keeps_clues_def all_cells_set)
qed

lemma blocked_digit:
  assumes inv: "consistent s" and p: "p \<in> cells" "cell_at (board s) p = 0" and d: "d \<noteq> 0"
    and blocked: "\<not> (d \<notin> row_to_seen_vals s (fst p) \<and> d \<notin> col_to_seen_vals s (snd p)
           \<and> d \<notin> grid_to_cells s (fst p div 3, snd p div 3))"
    and sol: "completes (board s) sol"
  shows "cell_at sol p \<noteq> d"
proof -
  have tr: "tracked cells s" using inv by (simp add: consistent_def)
  have "\<not> (\<forall>q\<in>cells. same_unit (fst p, snd p) q \<longrightarrow> cell_at (board s) q \<noteq> d)"
    using legal_iff[OF tr d, of "fst p" "snd p"] blocked by blast
  then obtain q where q: "q \<in> cells" "same_unit p q" "cell_at (board s) q = d" by auto
  then have "q \<noteq> p" using p(2) d by auto
  moreover have "cell_at sol q = d" using completes_keeps[OF sol q(1)] q(3) d by simp
  ultimately show ?thesis
    using completes_distinct[OF sol p(1) q(1) _ q(2)] by auto
qed

subsection \<open>Partial correctness of the search\<close>

lemma try_digits_blocked:
  assumes "\<not> (digit \<notin> row_to_seen_vals s row \<and> digit \<notin> col_to_seen_vals s col
         \<and> digit \<notin> grid_to_cells s (row div 3, col div 3))"
  shows "try_digits limit s row col (digit # digits) = try_digits limit s row col digits"
  using assms by (subst try_digits.simps(2)) (rule if_not_P)

lemma try_digits_free:
  assumes "digit \<notin> row_to_seen_vals s row \<and> digit \<notin> col_to_seen_vals s col
         \<and> digit \<notin> grid_to_cells s (row div 3, col div 3)"
  shows "try_digits limit s row col (digit # digits) =
        (case place s row col digit of
           Inl e \<Rightarrow> Inl e
         | Inr s1 \<Rightarrow>
             (case limit of
                0 \<Rightarrow> Inl RecursionError
              | Suc l \<Rightarrow>
                  (case depth_first_search l s1 of
                     Inl e \<Rightarrow> Inl e
                   | Inr (None, s2) \<Rightarrow>
                       (case undo s2 row col digit of
                          Inl e \<Rightarrow> Inl e
                        | Inr s3 \<Rightarrow> try_digits limit s3 row col digits)
                   | Inr (Some deep_state, s2) \<Rightarrow> Inr (Some (board s2), s2))))"
  using assms by (subst try_digits.simps(2)) (rule if_P)

lemma try_digits_sound:
  assumes IH: "\<And>l s1 r s2. limit = Suc l \<Longrightarrow> consistent s1 \<Longrightarrow> depth_first_search l s1 = Inr (r, s2)
                 \<Longrightarrow> search_post s1 r s2 \<and> (r = None \<longrightarrow> (\<forall>sol. \<not> completes (board s1) sol))"
    and inv: "consistent s" and ne: "empty_cells s \<noteq> []" and last: "last (empty_cells s) = (row, col)"
    and ds: "set ds \<subseteq> {1..9}"
    and run: "try_digits limit s row col ds = Inr (res, s')"
  shows "search_post s res s' \<and>
         (res = None \<longrightarrow> (\<forall>sol. completes (board s) sol \<longrightarrow> cell_at sol (row, col) \<notin> set ds))"
  using ds run
proof (induction ds)
  case Nil
  then show ?case by (simp add: try_digits.simps search_post_def)
next
  case (Cons d ds)
  have pc: "(row, col) \<in> cells" and p0: "cell_at (board s) (row, col) = 0"
    using inv_last_cell[OF inv ne] last by simp_all
  have d19: "1 \<le> d" "d \<le> 9" and dnz: "d \<noteq> 0" and ds': "set ds \<subseteq> {1..9}"
    using Cons.prems(1) by auto
  show ?case
  proof (cases "d \<notin> row_to_seen_vals s row \<and> d \<notin> col_to_seen_vals s col
                  \<and> d \<notin> grid_to_cells s (row div 3, col div 3)")
    case False
    then have "try_digits limit s row col ds = Inr (res, s')"
      using Cons.prems(2) by (simp add: try_digits_blocked)
    from Cons.IH[OF ds' this]
    have post: "search_post s res s'"
      and rest: "res = None \<longrightarrow> (\<forall>sol. completes (board s) sol \<longrightarrow> cell_at sol (row, col) \<notin> set ds)"
      by simp_all
    have "cell_at sol (row, col) \<noteq> d" if "completes (board s) sol" for sol
      using blocked_digit[OF inv pc p0 dnz _ that] False by simp
    with post rest show ?thesis by auto
  next
    case True
    obtain s1 where s1: "place s row col d = Inr s1" "consistent s1" "undo s1 row col d = Inr s"
        "empty_cells s1 = butlast (empty_cells s)"
        "\<forall>q\<in>cells. cell_at (board s1) q = (if q = (row, col) then d else cell_at (board s) q)"
      using place_ok[OF inv ne last[symmetric] dnz] True by auto
    show ?thesis
    proof (cases limit)
      case 0
      then show ?thesis using Cons.prems(2) s1(1) by (simp add: try_digits_free[OF True])
    next
      case (Suc l)
      show ?thesis
      proof (cases "depth_first_search l s1")
        case (Inl e)
        then show ?thesis using Cons.prems(2) s1(1) Suc by (simp add: try_digits_free[OF True])
      next
        case (Inr x)
        obtain r2 s2 where x: "x = (r2, s2)" by (cases x)
        from IH[OF Suc s1(2) Inr[unfolded x]]
        have post2: "search_post s1 r2 s2"
          and none2: "r2 = None \<longrightarrow> (\<forall>sol. \<not> completes (board s1) sol)" by simp_all
        show ?thesis
        proof (cases r2)
          case None
          then have "s2 = s1" using post2 by (simp add: search_post_def)
          then have "try_digits limit s row col ds = Inr (res, s')"
            using Cons.prems(2) s1(1,3) Suc Inr x None by (simp add: try_digits_free[OF True])
          from Cons.IH[OF ds' this]
          have post: "search_post s res s'"
            and rest: "res = None \<longrightarrow> (\<forall>sol. completes (board s) sol \<longrightarrow> cell_at sol (row, col) \<notin> set ds)"
            by simp_all
          have "cell_at sol (row, col) \<noteq> d" if "completes (board s) sol" for sol
            using completes_place[OF that s1(5)] none2 None by blast
          with post rest show ?thesis by auto
        next
          case (Some g)
          then have res: "res = Some (board s2)" "s' = s2"
            using Cons.prems(2) s1(1) Suc Inr x by (auto simp: try_digits_free[OF True])
          have "consistent s2" "empty_cells s2 = []" "fills (board s1) (board s2)"
            using post2 Some by (simp_all add: search_post_def)
          moreover have "fills (board s) (board s2)"
            using fills_place[OF pc p0 d19 s1(5)] calculation(3) by simp
          ultimately show ?thesis using res by (simp add: search_post_def)
        qed
      qed
    qed
  qed
qed

lemma set_digits: "set [1..9] = {1..9::int}"
  by simp

lemma dfs_sound_step:
  assumes IH: "\<And>l s1 r s2. limit = Suc l \<Longrightarrow> consistent s1 \<Longrightarrow> depth_first_search l s1 = Inr (r, s2)
                 \<Longrightarrow> search_post s1 r s2 \<and> (r = None \<longrightarrow> (\<forall>sol. \<not> completes (board s1) sol))"
    and inv: "consistent s"
    and run: "depth_first_search limit s = Inr (res, s')"
  shows "search_post s res s' \<and> (res = None \<longrightarrow> (\<forall>sol. \<not> completes (board s) sol))"
proof (cases "empty_cells s = []")
  case True
  then have "res = Some (board s)" "s' = s"
    using run by (auto simp: depth_first_search.simps)
  then show ?thesis using inv True by (simp add: search_post_def fills_refl)
next
  case False
  obtain row col where last: "last (empty_cells s) = (row, col)" by (cases "last (empty_cells s)")
  have pc: "(row, col) \<in> cells" using inv_last_cell(1)[OF inv False] last by simp
  have "try_digits limit s row col [1..9] = Inr (res, s')"
    using run False last by (simp add: depth_first_search.simps)
  from try_digits_sound[OF IH inv False last _ this]
  have post: "search_post s res s'"
    and rest: "res = None \<longrightarrow> (\<forall>sol. completes (board s) sol \<longrightarrow> cell_at sol (row, col) \<notin> set [1..9])"
    by simp_all
  have "cell_at sol (row, col) \<in> set [1..9]" if "completes (board s) sol" for sol
    using completes_range[OF that pc] by simp
  with post rest show ?thesis by blast
qed

lemma dfs_sound:
  "consistent s \<Longrightarrow> depth_first_search limit s = Inr (res, s')
   \<Longrightarrow> search_post s res s' \<and> (res = None \<longrightarrow> (\<forall>sol. \<not> completes (board s) sol))"
proof (induction limit arbitrary: s res s')
  case 0
  show ?case by (rule dfs_sound_step[OF _ 0]) simp
next
  case (Suc l)
  show ?case
  proof (rule dfs_sound_step[OF _ Suc.prems])
    fix l' s1 r s2
    assume "Suc l = Suc l'" "consistent s1" "depth_first_search l' s1 = Inr (r, s2)"
    then show "search_post s1 r s2 \<and> (r = None \<longrightarrow> (\<forall>sol. \<not> completes (board s1) sol))"
      using Suc.IH[of s1 r s2] by simp
  qed
qed

subsection \<open>Populating the variables\<close>

lemma tracked_skip_empty:
  assumes tr: "tracked P s" and p: "p \<notin> P" and p0: "cell_at (board s) p = 0"
  shows "tracked (insert p P) (s\<lparr>empty_cells := empty_cells s @ [p]\<rparr>)"
proof (rule trackedI)
  note rows = tracked_rows[OF tr] and cols = tracked_cols[OF tr] and boxes = tracked_boxes[OF tr]
    and dist = tracked_distinct[OF tr] and emp = tracked_empty[OF tr]
  show "row_to_seen_vals (s\<lparr>empty_cells := empty_cells s @ [p]\<rparr>) r =
        {v. v \<noteq> 0 \<and> (\<exists>q\<in>insert p P. fst q = r \<and> cell_at (board (s\<lparr>empty_cells := empty_cells s @ [p]\<rparr>)) q = v)}" for r
    using p0 by (auto simp: rows)
  show "col_to_seen_vals (s\<lparr>empty_cells := empty_cells s @ [p]\<rparr>) c =
        {v. v \<noteq> 0 \<and> (\<exists>q\<in>insert p P. snd q = c \<and> cell_at (board (s\<lparr>empty_cells := empty_cells s @ [p]\<rparr>)) q = v)}" for c
    using p0 by (auto simp: cols)
  show "grid_to_cells (s\<lparr>empty_cells := empty_cells s @ [p]\<rparr>) k =
        {v. v \<noteq> 0 \<and> (\<exists>q\<in>insert p P. box_key q = k \<and> cell_at (board (s\<lparr>empty_cells := empty_cells s @ [p]\<rparr>)) q = v)}" for k
    using p0 by (auto simp: boxes)
  have "p \<notin> set (empty_cells s)" using emp p by simp
  then show "distinct (empty_cells (s\<lparr>empty_cells := empty_cells s @ [p]\<rparr>))"
    using dist by simp
  show "set (empty_cells (s\<lparr>empty_cells := empty_cells s @ [p]\<rparr>)) =
        {q \<in> insert p P. cell_at (board (s\<lparr>empty_cells := empty_cells s @ [p]\<rparr>)) q = 0}"
    using emp p0 by auto
  fix q1 q2
  assume q: "q1 \<in> insert p P" "q2 \<in> insert p P" "q1 \<noteq> q2" "same_unit q1 q2"
    "cell_at (board (s\<lparr>empty_cells := empty_cells s @ [p]\<rparr>)) q1 \<noteq> 0"
  then have nz: "cell_at (board s) q1 \<noteq> 0" by simp
  then have q1: "q1 \<in> P" using q(1) p0 by auto
  show "cell_at (board (s\<lparr>empty_cells := empty_cells s @ [p]\<rparr>)) q1
        \<noteq> cell_at (board (s\<lparr>empty_cells := empty_cells s @ [p]\<rparr>)) q2"
  proof (cases "q2 = p")
    case True
    then show ?thesis using nz p0 by simp
  next
    case False
    then have "q2 \<in> P" using q(2) by simp
    then show ?thesis using tracked_nodup[OF tr q1 _ q(3,4) nz] by simp
  qed
qed


lemma tracked_add_clue:
  assumes tr: "tracked P s" and p: "(r, c) \<notin> P" and v: "cell_at (board s) (r, c) = v" "v \<noteq> 0"
    and free: "\<forall>q\<in>P. same_unit (r, c) q \<longrightarrow> cell_at (board s) q \<noteq> v"
  shows "tracked (insert (r, c) P)
           (s\<lparr>col_to_seen_vals := (col_to_seen_vals s)(c := insert v (col_to_seen_vals s c)),
                    row_to_seen_vals := (row_to_seen_vals s)(r := insert v (row_to_seen_vals s r)),
                    grid_to_cells := (grid_to_cells s)
                      ((r div 3, c div 3) := insert v (grid_to_cells s (r div 3, c div 3)))\<rparr>)"
proof -
  note rows = tracked_rows[OF tr] and cols = tracked_cols[OF tr] and boxes = tracked_boxes[OF tr]
    and dist = tracked_distinct[OF tr] and emp = tracked_empty[OF tr]
  have bk: "(r div 3, c div 3) = box_key (r, c)" by (simp add: box_key_def)
  have R: "((row_to_seen_vals s)(r := insert v (row_to_seen_vals s r))) r'
           = {w. w \<noteq> 0 \<and> (\<exists>q\<in>insert (r, c) P. fst q = r' \<and> cell_at (board s) q = w)}" for r'
    unfolding rows using v by auto
  have C: "((col_to_seen_vals s)(c := insert v (col_to_seen_vals s c))) c'
           = {w. w \<noteq> 0 \<and> (\<exists>q\<in>insert (r, c) P. snd q = c' \<and> cell_at (board s) q = w)}" for c'
    unfolding cols using v by auto
  have K: "((grid_to_cells s)(box_key (r, c) := insert v (grid_to_cells s (box_key (r, c))))) k
           = {w. w \<noteq> 0 \<and> (\<exists>q\<in>insert (r, c) P. box_key q = k \<and> cell_at (board s) q = w)}" for k
    unfolding boxes using v by auto
  have E: "set (empty_cells s) = {q \<in> insert (r, c) P. cell_at (board s) q = 0}"
    using emp v by auto
  have N: "cell_at (board s) q1 \<noteq> cell_at (board s) q2"
    if "q1 \<in> insert (r, c) P" "q2 \<in> insert (r, c) P" "q1 \<noteq> q2" "same_unit q1 q2" "cell_at (board s) q1 \<noteq> 0"
    for q1 q2
  proof -
    have sym: "same_unit q2 q1" using that(4) by (auto simp: same_unit_def)
    consider "q1 = (r, c)" | "q2 = (r, c)" "q1 \<noteq> (r, c)" | "q1 \<noteq> (r, c)" "q2 \<noteq> (r, c)" by blast
    then show ?thesis
    proof cases
      case 1
      then have "q2 \<in> P" using that(2,3) by simp
      then have "cell_at (board s) q2 \<noteq> v" using free that(4) 1 by blast
      then show ?thesis using 1 v(1) by simp
    next
      case 2
      then have "q1 \<in> P" using that(1) by simp
      then have "cell_at (board s) q1 \<noteq> v" using free sym 2 by blast
      then show ?thesis using 2 v(1) by simp
    next
      case 3
      then have "q1 \<in> P" "q2 \<in> P" using that(1,2) by simp_all
      then show ?thesis using tracked_nodup[OF tr _ _ that(3,4,5)] by simp
    qed
  qed
  show ?thesis
    unfolding bk
  proof (rule trackedI)
    fix q1 q2
    assume "q1 \<in> insert (r, c) P" "q2 \<in> insert (r, c) P" "q1 \<noteq> q2" "same_unit q1 q2"
      "cell_at (board (s\<lparr>col_to_seen_vals := (col_to_seen_vals s)(c := insert v (col_to_seen_vals s c)),
                    row_to_seen_vals := (row_to_seen_vals s)(r := insert v (row_to_seen_vals s r)),
                    grid_to_cells := (grid_to_cells s)
                      (box_key (r, c) := insert v (grid_to_cells s (box_key (r, c))))\<rparr>)) q1 \<noteq> 0"
    then show "cell_at (board (s\<lparr>col_to_seen_vals := (col_to_seen_vals s)(c := insert v (col_to_seen_vals s c)),
                    row_to_seen_vals := (row_to_seen_vals s)(r := insert v (row_to_seen_vals s r)),
                    grid_to_cells := (grid_to_cells s)
                      (box_key (r, c) := insert v (grid_to_cells s (box_key (r, c))))\<rparr>)) q1 \<noteq> cell_at (board (s\<lparr>col_to_seen_vals := (col_to_seen_vals s)(c := insert v (col_to_seen_vals s c)),
                    row_to_seen_vals := (row_to_seen_vals s)(r := insert v (row_to_seen_vals s r)),
                    grid_to_cells := (grid_to_cells s)
                      (box_key (r, c) := insert v (grid_to_cells s (box_key (r, c))))\<rparr>)) q2"
      using N[of q1 q2] by simp
  qed (simp_all add: R C K dist E del: fun_upd_apply)
qed

lemma same_unit_sym: "same_unit p q \<Longrightarrow> same_unit q p"
  by (auto simp: same_unit_def)

lemma clashI:
  "p \<in> P \<Longrightarrow> q \<in> P \<Longrightarrow> p \<noteq> q \<Longrightarrow> same_unit p q \<Longrightarrow> cell_at b p \<noteq> 0 \<Longrightarrow> cell_at b p = cell_at b q \<Longrightarrow> clash b P"
  unfolding clash_def by blast

lemma tracked_no_clash: "tracked P s \<Longrightarrow> \<not> clash (board s) P"
  unfolding clash_def using tracked_nodup by blast

lemma populate_tracked:
  assumes "is_9x9 (board s)" "tracked P s" "set cs \<subseteq> cells" "distinct cs" "set cs \<inter> P = {}"
  shows "(\<exists>s'. populate s cs = Inr (True, s') \<and> board s' = board s \<and> clash (board s) (P \<union> set cs))
       \<or> (\<exists>s'. populate s cs = Inr (False, s') \<and> board s' = board s \<and> tracked (P \<union> set cs) s')"
  using assms
proof (induction cs arbitrary: s P)
  case Nil
  then show ?case by simp
next
  case (Cons x cs)
  obtain r c where x: "x = (r, c)" by (cases x)
  define v where "v = cell_at (board s) (r, c)"
  have xc: "(r, c) \<in> cells" and xP: "(r, c) \<notin> P" and xcs: "(r, c) \<notin> set cs"
    using Cons.prems(3,4,5) x by auto
  have get: "get_cell (board s) r c = Inr v"
    using get_cell_at[OF Cons.prems(1) xc] by (simp add: v_def)
  have rest: "set cs \<subseteq> cells" "distinct cs" "set cs \<inter> insert (r, c) P = {}"
    using Cons.prems(3,4,5) x by auto
  have un: "insert (r, c) P \<union> set cs = P \<union> set (x # cs)" using x by auto
  show ?case
  proof (cases "v = 0")
    case True
    define s1 where "s1 = s\<lparr>empty_cells := empty_cells s @ [(r, c)]\<rparr>"
    have step: "populate s (x # cs) = populate s1 cs"
      using get True by (simp add: x s1_def)
    have tr1: "tracked (insert (r, c) P) s1"
      using tracked_skip_empty[OF Cons.prems(2) xP] True by (simp add: v_def s1_def)
    have b1: "board s1 = board s" by (simp add: s1_def)
    have "is_9x9 (board s1)" using Cons.prems(1) b1 by simp
    from Cons.IH[OF this tr1 rest]
    show ?thesis unfolding step un b1 .
  next
    case False
    show ?thesis
    proof (cases "v \<in> row_to_seen_vals s r \<or> v \<in> col_to_seen_vals s c
                    \<or> v \<in> grid_to_cells s (r div 3, c div 3)")
      case True
      then have step: "populate s (x # cs) = Inr (True, s)"
        using get False by (simp add: x)
      have "\<not> (\<forall>q\<in>P. same_unit (r, c) q \<longrightarrow> cell_at (board s) q \<noteq> v)"
        using legal_iff[OF Cons.prems(2) False, of r c] True by blast
      then obtain q where q: "q \<in> P" "same_unit (r, c) q" "cell_at (board s) q = v" by blast
      have "(r, c) \<noteq> q" using q(1) xP by auto
      then have "clash (board s) (P \<union> set (x # cs))"
        using q False x v_def by (intro clashI[of "(r, c)" _ q]) auto
      then show ?thesis unfolding step by simp
    next
      case free: False
      define s1 where "s1 = s\<lparr>col_to_seen_vals := (col_to_seen_vals s)(c := insert v (col_to_seen_vals s c)),
                    row_to_seen_vals := (row_to_seen_vals s)(r := insert v (row_to_seen_vals s r)),
                    grid_to_cells := (grid_to_cells s)
                      ((r div 3, c div 3) := insert v (grid_to_cells s (r div 3, c div 3)))\<rparr>"
      have step: "populate s (x # cs) = populate s1 cs"
        using get False free by (simp add: x s1_def)
      have "\<forall>q\<in>P. same_unit (r, c) q \<longrightarrow> cell_at (board s) q \<noteq> v"
        using legal_iff[OF Cons.prems(2) False, of r c] free by blast
      then have tr1: "tracked (insert (r, c) P) s1"
        unfolding s1_def using tracked_add_clue[OF Cons.prems(2) xP _ False] by (simp add: v_def)
      have b1: "board s1 = board s" by (simp add: s1_def)
      have "is_9x9 (board s1)" using Cons.prems(1) b1 by simp
      from Cons.IH[OF this tr1 rest]
      show ?thesis unfolding step un b1 .
    qed
  qed
qed

lemma tracked_initial: "tracked {} (initial_state g)"
  by (rule trackedI) (simp_all add: initial_state_def)

lemma populate_initial:
  assumes "is_9x9 g"
  shows "(\<exists>s. populate (initial_state g) all_cells = Inr (True, s) \<and> board s = g \<and> clash g cells)
       \<or> (\<exists>s. populate (initial_state g) all_cells = Inr (False, s) \<and> board s = g \<and> consistent s)"
proof -
  have b: "board (initial_state g) = g" by (simp add: initial_state_def)
  have "is_9x9 (board (initial_state g))" using assms b by simp
  from populate_tracked[OF this tracked_initial, of all_cells]
  have "(\<exists>s. populate (initial_state g) all_cells = Inr (True, s) \<and> board s = g \<and> clash g cells)
       \<or> (\<exists>s. populate (initial_state g) all_cells = Inr (False, s) \<and> board s = g \<and> tracked cells s)"
    unfolding b using distinct_all_cells by (simp add: all_cells_set)
  then show ?thesis using assms by (auto simp: consistent_def)
qed

subsection \<open>Termination of the search\<close>

lemma duplicate_clue_iff_clash: "duplicate_clue g \<longleftrightarrow> clash g cells"
proof
  assume "duplicate_clue g"
  then obtain u where u: "u \<in> set units" "\<not> distinct (filter (\<lambda>v. v \<noteq> 0) (map (cell_at g) u))"
    by (auto simp: duplicate_clue_def)
  let ?ys = "filter (\<lambda>p. cell_at g p \<noteq> 0) u"
  have "filter (\<lambda>v. v \<noteq> 0) (map (cell_at g) u) = map (cell_at g) ?ys"
    by (simp add: filter_map comp_def)
  moreover have "distinct ?ys" using unit_props(1)[OF u(1)] by simp
  ultimately have "\<not> inj_on (cell_at g) (set ?ys)" using u(2) by (simp add: distinct_map)
  then obtain p q where pq: "p \<in> set ?ys" "q \<in> set ?ys" "p \<noteq> q" "cell_at g p = cell_at g q"
    by (auto simp: inj_on_def)
  then have in_u: "p \<in> set u" "q \<in> set u" and nz: "cell_at g p \<noteq> 0" by simp_all
  have c: "p \<in> cells" "q \<in> cells" using unit_props(3)[OF u(1)] in_u by auto
  have "same_unit p q" using unit_same[OF u(1) in_u] .
  then show "clash g cells" using c pq(3,4) nz by (intro clashI[of p _ q])
next
  assume "clash g cells"
  then obtain p q where pq: "p \<in> cells" "q \<in> cells" "p \<noteq> q" "same_unit p q" "cell_at g p \<noteq> 0"
      "cell_at g p = cell_at g q"
    unfolding clash_def by blast
  obtain u where u: "u \<in> set units" "p \<in> set u" "q \<in> set u"
    using same_unit_shared[OF pq(1,2,4)] by blast
  let ?ys = "filter (\<lambda>p. cell_at g p \<noteq> 0) u"
  have ys: "p \<in> set ?ys" "q \<in> set ?ys" using u(2,3) pq(5,6) by simp_all
  have "\<not> inj_on (cell_at g) (set ?ys)"
  proof
    assume "inj_on (cell_at g) (set ?ys)"
    from inj_onD[OF this pq(6) ys] pq(3) show False by simp
  qed
  then have "\<not> distinct (map (cell_at g) ?ys)" by (simp add: distinct_map)
  moreover have "filter (\<lambda>v. v \<noteq> 0) (map (cell_at g) u) = map (cell_at g) ?ys"
    by (simp add: filter_map comp_def)
  ultimately have "\<not> distinct (filter (\<lambda>v. v \<noteq> 0) (map (cell_at g) u))" by simp
  then show "duplicate_clue g" unfolding duplicate_clue_def using u(1) by blast
qed

lemma try_digits_total:
  assumes IH: "\<And>l s1. limit = Suc l \<Longrightarrow> consistent s1 \<Longrightarrow> length (empty_cells s1) \<le> l
                 \<Longrightarrow> \<exists>r. depth_first_search l s1 = Inr r"
    and inv: "consistent s" and ne: "empty_cells s \<noteq> []" and last: "last (empty_cells s) = (row, col)"
    and len: "length (empty_cells s) \<le> limit"
    and ds: "set ds \<subseteq> {1..9}"
  shows "\<exists>r. try_digits limit s row col ds = Inr r"
  using ds
proof (induction ds)
  case Nil
  show ?case by (simp add: try_digits.simps(1))
next
  case (Cons d ds)
  have dnz: "d \<noteq> 0" and ds': "set ds \<subseteq> {1..9}" using Cons.prems by auto
  show ?case
  proof (cases "d \<notin> row_to_seen_vals s row \<and> d \<notin> col_to_seen_vals s col
                  \<and> d \<notin> grid_to_cells s (row div 3, col div 3)")
    case False
    then show ?thesis using Cons.IH[OF ds'] by (simp add: try_digits_blocked)
  next
    case True
    obtain s1 where s1: "place s row col d = Inr s1" "consistent s1" "undo s1 row col d = Inr s"
        "empty_cells s1 = butlast (empty_cells s)"
      using place_ok[OF inv ne last[symmetric] dnz] True by auto
    obtain l where l: "limit = Suc l" using ne len by (cases limit) auto
    have "length (empty_cells s1) \<le> l" using s1(4) len l by simp
    from IH[OF l s1(2) this] obtain r2 s2 where run: "depth_first_search l s1 = Inr (r2, s2)"
      by (metis surj_pair)
    show ?thesis
    proof (cases r2)
      case None
      then have "s2 = s1" using dfs_sound[OF s1(2) run] by (simp add: search_post_def)
      then have "try_digits limit s row col (d # ds) = try_digits limit s row col ds"
        using s1(1,3) l run None by (simp add: try_digits_free[OF True])
      then show ?thesis using Cons.IH[OF ds'] by simp
    next
      case (Some g)
      then show ?thesis using s1(1) l run by (simp add: try_digits_free[OF True])
    qed
  qed
qed

lemma dfs_total_step:
  assumes IH: "\<And>l s1. limit = Suc l \<Longrightarrow> consistent s1 \<Longrightarrow> length (empty_cells s1) \<le> l
                 \<Longrightarrow> \<exists>r. depth_first_search l s1 = Inr r"
    and inv: "consistent s" and len: "length (empty_cells s) \<le> limit"
  shows "\<exists>r. depth_first_search limit s = Inr r"
proof (cases "empty_cells s = []")
  case True
  then show ?thesis by (simp add: depth_first_search.simps)
next
  case False
  obtain row col where last: "last (empty_cells s) = (row, col)" by (cases "last (empty_cells s)")
  have "\<exists>r. try_digits limit s row col [1..9] = Inr r"
    by (rule try_digits_total[OF IH inv False last len]) simp_all
  then show ?thesis using False last by (simp add: depth_first_search.simps)
qed

lemma dfs_total:
  "consistent s \<Longrightarrow> length (empty_cells s) \<le> limit \<Longrightarrow> \<exists>r. depth_first_search limit s = Inr r"
proof (induction limit arbitrary: s)
  case 0
  show ?case by (rule dfs_total_step[OF _ 0]) simp
next
  case (Suc l)
  show ?case
  proof (rule dfs_total_step[OF _ Suc.prems])
    fix l' s1
    assume "Suc l = Suc l'" "consistent s1" "length (empty_cells s1) \<le> l'"
    then show "\<exists>r. depth_first_search l' s1 = Inr r"
      using Suc.IH[of s1] by simp
  qed
qed

subsection \<open>The solver as a whole\<close>

lemma populate_empty_cells:
  assumes "is_9x9 (board s)" "set cs \<subseteq> cells" "populate s cs = Inr (False, s')"
  shows "empty_cells s' = empty_cells s @ filter (\<lambda>p. cell_at (board s) p = 0) cs"
  using assms
proof (induction cs arbitrary: s)
  case Nil
  then show ?case by simp
next
  case (Cons x cs)
  obtain r c where x: "x = (r, c)" by (cases x)
  have xc: "(r, c) \<in> cells" and rest: "set cs \<subseteq> cells" using Cons.prems(2) x by auto
  define v where "v = cell_at (board s) (r, c)"
  have get: "get_cell (board s) r c = Inr v"
    using get_cell_at[OF Cons.prems(1) xc] by (simp add: v_def)
  show ?case
  proof (cases "v = 0")
    case True
    define s1 where "s1 = s\<lparr>empty_cells := empty_cells s @ [(r, c)]\<rparr>"
    have b1: "board s1 = board s" and e1: "empty_cells s1 = empty_cells s @ [(r, c)]"
      by (simp_all add: s1_def)
    have "populate s1 cs = Inr (False, s')"
      using Cons.prems(3) get True by (simp add: x s1_def)
    from Cons.IH[OF _ rest this] Cons.prems(1) b1
    have "empty_cells s' = empty_cells s1 @ filter (\<lambda>p. cell_at (board s) p = 0) cs" by simp
    then show ?thesis using True by (simp add: e1 x v_def)
  next
    case False
    define s1 where "s1 = s\<lparr>col_to_seen_vals := (col_to_seen_vals s)(c := insert v (col_to_seen_vals s c)),
                    row_to_seen_vals := (row_to_seen_vals s)(r := insert v (row_to_seen_vals s r)),
                    grid_to_cells := (grid_to_cells s)
                      ((r div 3, c div 3) := insert v (grid_to_cells s (r div 3, c div 3)))\<rparr>"
    have b1: "board s1 = board s" and e1: "empty_cells s1 = empty_cells s"
      by (simp_all add: s1_def)
    have "populate s1 cs = Inr (False, s')"
      using Cons.prems(3) get False by (simp add: x s1_def split: if_splits)
    from Cons.IH[OF _ rest this] Cons.prems(1) b1
    have "empty_cells s' = empty_cells s1 @ filter (\<lambda>p. cell_at (board s) p = 0) cs" by simp
    then show ?thesis using False by (simp add: e1 x v_def)
  qed
qed

lemma populate_initial_empty_cells:
  assumes "is_9x9 g" "populate (initial_state g) all_cells = Inr (False, s)"
  shows "empty_cells s = filter (\<lambda>p. cell_at g p = 0) all_cells"
proof -
  have "is_9x9 (board (initial_state g))" using assms(1) by (simp add: initial_state_def)
  from populate_empty_cells[OF this _ assms(2)]
  show ?thesis by (simp add: all_cells_set initial_state_def)
qed

lemma solve_sudoku_cases:
  assumes "is_9x9 g"
  obtains (rejected) s where "clash g cells"
      "populate (initial_state g) all_cells = Inr (True, s)"
      "solve_sudoku limit (initial_state g) = Inr (invalid_sudoku, s)" "board s = g"
  | (searched) s0 where "\<not> clash g cells"
      "populate (initial_state g) all_cells = Inr (False, s0)" "consistent s0" "board s0 = g"
      "length (empty_cells s0) = count_empty g"
      "solve_sudoku limit (initial_state g) =
         (case depth_first_search limit s0 of
             Inl e \<Rightarrow> Inl e
           | Inr (None, s') \<Rightarrow> Inr (invalid_sudoku, s')
           | Inr (Some goal_state, s') \<Rightarrow> Inr (goal_state, s'))"
proof -
  from populate_initial[OF assms]
  consider s where "populate (initial_state g) all_cells = Inr (True, s)" "board s = g" "clash g cells"
    | s where "populate (initial_state g) all_cells = Inr (False, s)" "board s = g" "consistent s"
    by blast
  then show ?thesis
  proof cases
    case 1
    then show ?thesis by (intro rejected[of s]) (simp_all add: solve_sudoku_def)
  next
    case 2
    have nc: "\<not> clash g cells"
      using tracked_no_clash[of cells s] 2(2,3) by (simp add: consistent_def)
    have len: "length (empty_cells s) = count_empty g"
      using populate_initial_empty_cells[OF assms 2(1)] by (simp add: count_empty_def)
    show ?thesis
      using nc 2 len by (intro searched[of s]) (simp_all add: solve_sudoku_def)
  qed
qed

lemma entries_at:
  assumes "is_9x9 g" "entries_0_to_9 g" "p \<in> cells"
  shows "0 \<le> cell_at g p" "cell_at g p \<le> 9"
proof -
  obtain r c where p: "p = (r, c)" by (cases p)
  have rc: "0 \<le> r" "r \<le> 8" "0 \<le> c" "c \<le> 8" using assms(3) by (auto simp: cells_def p)
  have "nat r < length g" using assms(1) rc by (simp add: is_9x9_def)
  then have row: "g ! nat r \<in> set g" by simp
  then have "length (g ! nat r) = 9" using assms(1) by (simp add: is_9x9_def)
  then have "g ! nat r ! nat c \<in> set (g ! nat r)" using rc by simp
  with row have "0 \<le> g ! nat r ! nat c \<and> g ! nat r ! nat c \<le> 9"
    using assms(2) unfolding entries_0_to_9_def by blast
  then show "0 \<le> cell_at g p" "cell_at g p \<le> 9" by (simp_all add: cell_at_def p)
qed

lemma complete_board_valid:
  assumes inv: "consistent s'" and fin: "empty_cells s' = []" and fills: "fills g (board s')"
    and clues: "\<forall>p\<in>cells. cell_at g p \<noteq> 0 \<longrightarrow> 1 \<le> cell_at g p \<and> cell_at g p \<le> 9"
  shows "valid_solution (board s')" "keeps_clues g (board s')"
proof -
  have g9: "is_9x9 (board s')" and tr: "tracked cells s'" using inv by (simp_all add: consistent_def)
  have nz: "cell_at (board s') p \<noteq> 0" if "p \<in> cells" for p
  proof
    assume "cell_at (board s') p = 0"
    then have "p \<in> set (empty_cells s')"
      unfolding tracked_empty[OF tr] using that by simp
    then show False using fin by simp
  qed
  have rng: "1 \<le> cell_at (board s') p \<and> cell_at (board s') p \<le> 9" if "p \<in> cells" for p
  proof (cases "cell_at g p = 0")
    case True
    then show ?thesis using fills that nz[OF that] by (auto simp: fills_def)
  next
    case False
    then have "cell_at (board s') p = cell_at g p" using fills that by (simp add: fills_def)
    then show ?thesis using clues that False by simp
  qed
  have nd: "cell_at (board s') p \<noteq> cell_at (board s') q"
    if "p \<in> cells" "q \<in> cells" "p \<noteq> q \<and> same_unit p q" for p q
    using tracked_nodup[OF tr that(1,2)] that(3) nz[OF that(1)] by blast
  show "valid_solution (board s')"
    unfolding valid_solution_iff[OF g9] using rng nd by blast
  show "keeps_clues g (board s')"
    using fills by (simp add: keeps_clues_def all_cells_set fills_def)
qed

lemma at_invalid_sudoku: "p \<in> cells \<Longrightarrow> cell_at invalid_sudoku p = - 1"
  by (auto simp: cells_def cell_at_def invalid_sudoku_def)

lemma valid_not_invalid: "valid_solution g \<Longrightarrow> g \<noteq> invalid_sudoku"
proof
  assume v: "valid_solution g" and "g = invalid_sudoku"
  then have "is_9x9 invalid_sudoku" "valid_solution invalid_sudoku"
    by (simp_all add: valid_solution_def)
  from this(2)[unfolded valid_solution_iff[OF this(1)]]
  have "1 \<le> cell_at invalid_sudoku (0, 0)" by (simp add: cells_def)
  then show False by (simp add: at_invalid_sudoku cells_def)
qed

lemma count_empty_le: "count_empty g \<le> 81"
proof -
  have "count_empty g \<le> length all_cells"
    unfolding count_empty_def by (rule length_filter_le)
  also have "length all_cells = 81"
    by (simp add: all_cells_def length_concat comp_def sum_list_triv)
  finally show ?thesis .
qed

lemma clues_in_range:
  assumes "is_9x9 g" "entries_0_to_9 g"
  shows "\<forall>p\<in>cells. cell_at g p \<noteq> 0 \<longrightarrow> 1 \<le> cell_at g p \<and> cell_at g p \<le> 9"
proof (intro ballI impI)
  fix p assume "p \<in> cells" "cell_at g p \<noteq> 0"
  then show "1 \<le> cell_at g p \<and> cell_at g p \<le> 9"
    using entries_at[OF assms, of p] by simp
qed

lemma completes_no_clash:
  assumes "completes g sol"
  shows "\<not> clash g cells"
proof
  assume "clash g cells"
  then obtain p q where pq: "p \<in> cells" "q \<in> cells" "p \<noteq> q" "same_unit p q" "cell_at g p \<noteq> 0"
      "cell_at g p = cell_at g q"
    unfolding clash_def by blast
  have "cell_at sol p = cell_at g p" "cell_at sol q = cell_at g q"
    using completes_keeps[OF assms] pq by simp_all
  then show False using completes_distinct[OF assms pq(1,2,3,4)] pq(6) by simp
qed

lemma invalid_not_complete:
  assumes "consistent s" "board s = invalid_sudoku"
  shows False
proof -
  have tr: "tracked cells s" using assms(1) by (simp add: consistent_def)
  have c: "(0, 0) \<in> cells" "(0, 1) \<in> cells" by (simp_all add: cells_def)
  have "same_unit (0, 0) (0, 1)" by (simp add: same_unit_def)
  from tracked_nodup[OF tr c _ this]
  show False using assms(2) at_invalid_sudoku c by simp
qed

subsection \<open>The class \<open>SudokuState\<close>\<close>

lemma ilog2_bounds: "0 < n \<Longrightarrow> 2 ^ ilog2 n \<le> n \<and> n < 2 ^ Suc (ilog2 n)"
proof (induction n rule: ilog2.induct)
  case (1 n)
  show ?case
  proof (cases "n < 2")
    case True
    then show ?thesis using 1(2) by (simp add: ilog2.simps)
  next
    case False
    then have "0 < n div 2" by simp
    from 1(1)[OF False this] have "2 ^ ilog2 (n div 2) \<le> n div 2" "n div 2 < 2 ^ Suc (ilog2 (n div 2))"
      by simp_all
    then have "2 * 2 ^ ilog2 (n div 2) \<le> n" "n < 2 * 2 ^ Suc (ilog2 (n div 2))" by linarith+
    then show ?thesis using False by (simp add: ilog2.simps[of n])
  qed
qed

lemma exponent_bounds:
  assumes "1 \<le> \<bar>q\<bar>"
  shows "0 \<le> exponent q" "2 powi exponent q \<le> \<bar>q\<bar>" "\<bar>q\<bar> < 2 powi (exponent q + 1)"
proof -
  define n where "n = nat \<lfloor>\<bar>q\<bar>\<rfloor>"
  have f: "1 \<le> \<lfloor>\<bar>q\<bar>\<rfloor>" using assms by (simp add: le_floor_iff)
  then have n: "0 < n" "int n = \<lfloor>\<bar>q\<bar>\<rfloor>" by (simp_all add: n_def)
  have e: "exponent q = int (ilog2 n)" using assms by (simp add: exponent_def n_def)
  show "0 \<le> exponent q" by (simp add: e)
  from ilog2_bounds[OF n(1)] have b: "2 ^ ilog2 n \<le> n" "n < 2 ^ Suc (ilog2 n)" by simp_all
  have "(2::rat) ^ ilog2 n = of_int (int (2 ^ ilog2 n))" by simp
  also have "\<dots> \<le> of_int (int n)" using b(1) by (simp only: of_int_le_iff of_nat_le_iff)
  also have "\<dots> \<le> \<bar>q\<bar>" by (simp only: n(2)) (rule of_int_floor_le)
  finally show "2 powi exponent q \<le> \<bar>q\<bar>" by (simp add: e)
  have "int n + 1 \<le> int (2 ^ Suc (ilog2 n))" using b(2) by linarith
  then have "(of_int (int n + 1) :: rat) \<le> of_int (int (2 ^ Suc (ilog2 n)))" by (simp only: of_int_le_iff)
  moreover have "\<bar>q\<bar> < of_int (int n + 1)" by (simp only: n(2)) linarith
  ultimately have "\<bar>q\<bar> < of_int (int (2 ^ Suc (ilog2 n)))" by linarith
  also have "\<dots> = 2 ^ Suc (ilog2 n)" by simp
  also have "\<dots> = 2 powi (int (Suc (ilog2 n)))" by (simp only: power_int_of_nat)
  also have "int (Suc (ilog2 n)) = exponent q + 1" by (simp add: e)
  finally show "\<bar>q\<bar> < 2 powi (exponent q + 1)" .
qed

lemma round_half_even_of_int: "round_half_even (of_int k) = k"
  by (simp add: round_half_even_def)

lemma round_half_even_ge:
  assumes "of_int n \<le> y"
  shows "n \<le> round_half_even y"
proof -
  have "n \<le> \<lfloor>y\<rfloor>" using assms by (simp add: le_floor_iff)
  then show ?thesis by (simp add: round_half_even_def)
qed

lemma round_half_even_le:
  assumes "y \<le> of_int n"
  shows "round_half_even y \<le> n"
proof (cases "\<lfloor>y\<rfloor> = n")
  case True
  then have "y = of_int n" using assms of_int_floor_le[of y] by linarith
  then show ?thesis by (simp add: round_half_even_of_int)
next
  case False
  have "\<lfloor>y\<rfloor> \<le> n" using assms by (simp add: floor_le_iff)
  then have "\<lfloor>y\<rfloor> + 1 \<le> n" using False by simp
  then show ?thesis by (auto simp: round_half_even_def)
qed


lemma to_double_exact:
  assumes "q / 2 powi (exponent q - 52) = of_int k"
  shows "to_double q = q"
proof (cases "q = 0")
  case True
  then show ?thesis by (simp add: to_double_def)
next
  case False
  have u: "(2::rat) powi (exponent q - 52) \<noteq> 0" by simp
  have "to_double q = q / 2 powi (exponent q - 52) * 2 powi (exponent q - 52)"
    using False by (simp only: to_double_def assms round_half_even_of_int if_False)
  then show ?thesis using u by simp
qed

lemma to_double_of_int:
  assumes "\<bar>n\<bar> \<le> 2 ^ 53"
  shows "to_double (of_int n) = of_int n"
proof (cases "n = 0")
  case True
  then show ?thesis by (simp add: to_double_def)
next
  case False
  define q :: rat where "q = of_int n"
  have q1: "1 \<le> \<bar>q\<bar>" using False by (simp add: q_def flip: of_int_abs)
  define k where "k = nat (exponent q)"
  have k: "exponent q = int k" using exponent_bounds(1)[OF q1] by (simp add: k_def)
  have "(2::rat) ^ k \<le> \<bar>q\<bar>" using exponent_bounds(2)[OF q1] by (simp add: k)
  also have "\<bar>q\<bar> \<le> 2 ^ 53"
  proof -
    have "(of_int \<bar>n\<bar> :: rat) \<le> of_int (2 ^ 53)" using assms by (simp only: of_int_le_iff)
    then show ?thesis by (simp add: q_def)
  qed
  finally have "(2::rat) ^ k \<le> 2 ^ 53" .
  then have k53: "k \<le> 53" by (rule power_le_imp_le_exp[rotated]) simp
  show ?thesis
  proof (cases "k \<le> 52")
    case True
    have "(2::rat) powi (exponent q - 52) = 1 / 2 ^ (52 - k)"
    proof -
      have "exponent q - 52 = - int (52 - k)" using True by (simp add: k)
      then show ?thesis by (simp add: power_int_minus divide_inverse)
    qed
    then have "q / 2 powi (exponent q - 52) = of_int (n * 2 ^ (52 - k))" by (simp add: q_def)
    from to_double_exact[OF this] show ?thesis by (simp add: q_def)
  next
    case False
    then have k': "k = 53" using k53 by simp
    have "(2::rat) ^ 53 \<le> \<bar>q\<bar>" using \<open>(2::rat) ^ k \<le> \<bar>q\<bar>\<close> by (simp add: k')
    then have "\<bar>q\<bar> = 2 ^ 53" using \<open>\<bar>q\<bar> \<le> 2 ^ 53\<close> by simp
    then have "\<bar>n\<bar> = 2 ^ 53" by (simp add: q_def flip: of_int_abs)
    then consider "n = 2 ^ 53" | "n = - (2 ^ 53)" by linarith
    then have "q / 2 = of_int (n div 2)" by cases (simp_all add: q_def)
    moreover have "(2::rat) powi (exponent q - 52) = 2" by (simp add: k k')
    ultimately have "q / 2 powi (exponent q - 52) = of_int (n div 2)" by simp
    from to_double_exact[OF this] show ?thesis by (simp add: q_def)
  qed
qed

lemma to_double_ge:
  assumes "2 ^ k \<le> q"
  shows "2 ^ k \<le> to_double q"
proof -
  have q0: "0 < q" using assms by (rule less_le_trans[rotated]) simp
  have "(1::rat) \<le> 2 ^ k" by simp
  then have q1: "1 \<le> \<bar>q\<bar>" using assms by linarith
  note b = exponent_bounds[OF q1]
  define e where "e = exponent q"
  have "(2::rat) powi int k < 2 powi (e + 1)" using assms b(3) q0 by (simp add: e_def)
  then have "int k < e + 1" using b(1) by (intro power_int_le_imp_less_exp[of 2]) (simp_all add: e_def)
  then have ke: "int k \<le> e" by simp
  define u :: rat where "u = 2 powi (e - 52)"
  have u0: "0 < u" by (simp add: u_def)
  have "2 powi e / u = (2::rat) powi 52" by (simp add: u_def power_int_diff)
  then have "of_int (2 ^ 52) = 2 powi e / u" by simp
  also have "\<dots> \<le> q / u" using b(2) q0 u0 by (simp add: e_def divide_right_mono)
  finally have "2 ^ 52 \<le> round_half_even (q / u)" by (rule round_half_even_ge)
  then have "(of_int (2 ^ 52) :: rat) \<le> of_int (round_half_even (q / u))" by (simp only: of_int_le_iff)
  then have "of_int (2 ^ 52) * u \<le> of_int (round_half_even (q / u)) * u"
    using u0 by (simp only: mult_le_cancel_right) simp
  moreover have "of_int (2 ^ 52) * u = 2 powi e" by (simp add: u_def power_int_diff)
  moreover have "to_double q = of_int (round_half_even (q / u)) * u"
    using q0 by (simp add: to_double_def u_def e_def)
  moreover have "(2::rat) ^ k \<le> 2 powi e"
  proof -
    have "(2::rat) powi int k \<le> 2 powi e" by (rule power_int_increasing[OF ke]) simp
    then show ?thesis by (simp only: power_int_of_nat)
  qed
  ultimately show ?thesis by linarith
qed

lemma to_double_le:
  assumes "q \<le> - (2 ^ k)"
  shows "to_double q \<le> - (2 ^ k)"
proof -
  have p: "(0::rat) < 2 ^ k" by simp
  have q0: "q < 0" using assms p by linarith
  have "(1::rat) \<le> 2 ^ k" by simp
  then have q1: "1 \<le> \<bar>q\<bar>" using assms by linarith
  note b = exponent_bounds[OF q1]
  define e where "e = exponent q"
  have "(2::rat) powi int k < 2 powi (e + 1)" using assms b(3) q0 by (simp add: e_def)
  then have "int k < e + 1" using b(1) by (intro power_int_le_imp_less_exp[of 2]) (simp_all add: e_def)
  then have ke: "int k \<le> e" by simp
  define u :: rat where "u = 2 powi (e - 52)"
  have u0: "0 < u" by (simp add: u_def)
  have pe: "2 powi e / u = (2::rat) powi 52" by (simp add: u_def power_int_diff)
  have "q \<le> - (2 powi e)" using b(2) q0 by (simp add: e_def)
  then have "q / u \<le> - (2 powi e) / u" using u0 by (simp only: divide_right_mono less_imp_le)
  also have "\<dots> = of_int (- (2 ^ 52))" using pe by simp
  finally have "round_half_even (q / u) \<le> - (2 ^ 52)" by (rule round_half_even_le)
  then have "(of_int (round_half_even (q / u)) :: rat) \<le> of_int (- (2 ^ 52))" by (simp only: of_int_le_iff)
  then have "of_int (round_half_even (q / u)) * u \<le> of_int (- (2 ^ 52)) * u"
    using u0 by (simp only: mult_le_cancel_right) simp
  moreover have "of_int (- (2 ^ 52)) * u = - (2 powi e)" by (simp add: u_def power_int_diff)
  moreover have "to_double q = of_int (round_half_even (q / u)) * u"
    using q0 by (simp add: to_double_def u_def e_def)
  moreover have "(2::rat) ^ k \<le> 2 powi e"
  proof -
    have "(2::rat) powi int k \<le> 2 powi e" by (rule power_int_increasing[OF ke]) simp
    then show ?thesis by (simp only: power_int_of_nat)
  qed
  ultimately show ?thesis by linarith
qed


lemma fmod_nonneg:
  assumes "0 \<le> v"
  shows "0 \<le> fmod v 3" "fmod v 3 < 3"
proof -
  have f: "fmod v 3 = v - 3 * of_int \<lfloor>v / 3\<rfloor>" using assms by (simp add: fmod_def)
  have "of_int \<lfloor>v / 3\<rfloor> \<le> v / 3" "v / 3 < of_int \<lfloor>v / 3\<rfloor> + 1" by linarith+
  then show "0 \<le> fmod v 3" "fmod v 3 < 3" unfolding f by linarith+
qed

lemma fmod_nonpos:
  assumes "v \<le> 0"
  shows "- 3 < fmod v 3" "fmod v 3 \<le> 0"
proof -
  have "fmod v 3 = v - 3 * of_int \<lceil>v / 3\<rceil>"
  proof (cases "v = 0")
    case True
    then show ?thesis by (simp add: fmod_def)
  next
    case False
    then have "\<not> 0 \<le> v / 3" using assms by simp
    then show ?thesis by (simp add: fmod_def)
  qed
  moreover have "of_int \<lceil>v / 3\<rceil> - 1 < v / 3" "v / 3 \<le> of_int \<lceil>v / 3\<rceil>" by linarith+
  ultimately show "- 3 < fmod v 3" "fmod v 3 \<le> 0" by linarith+
qed

lemma fmod_of_int:
  "fmod (of_int x) 3 = of_int (x - 3 * (if 0 \<le> x then x div 3 else - ((- x) div 3)))"
proof -
  have d: "(of_int x :: rat) / 3 = of_int x / of_int 3" by simp
  have fl: "\<lfloor>(of_int x :: rat) / 3\<rfloor> = x div 3" unfolding d by (rule floor_divide_of_int_eq)
  have "(- of_int x :: rat) / 3 = of_int (- x) / of_int 3" by simp
  then have "\<lfloor>- (of_int x :: rat) / 3\<rfloor> = (- x) div 3" by (simp only: floor_divide_of_int_eq)
  then have ce: "\<lceil>(of_int x :: rat) / 3\<rceil> = - ((- x) div 3)" by (simp add: ceiling_def)
  have s: "(0 \<le> (of_int x :: rat) / 3) = (0 \<le> x)" by simp
  show ?thesis unfolding fmod_def s by (simp add: fl ce)
qed

lemma float_floor_div_of_int:
  assumes "\<bar>x\<bar> \<le> 2 ^ 53"
  shows "float_floor_div (of_int x) 3 = of_int (x div 3)"
proof -
  define t where "t = (if 0 \<le> x then x div 3 else - ((- x) div 3))"
  have rem: "fmod (of_int x) 3 = of_int (x - 3 * t)" by (simp only: fmod_of_int t_def)
  have t3: "\<bar>3 * t\<bar> \<le> 2 ^ 53" "\<bar>t\<bar> \<le> 2 ^ 53" "\<bar>t - 1\<bar> \<le> 2 ^ 53"
    using assms by (auto simp: t_def)
  have "(of_int x :: rat) - of_int (x - 3 * t) = of_int (3 * t)" by simp
  then have "to_double (of_int x - fmod (of_int x) 3) = of_int (3 * t)"
    by (simp only: rem to_double_of_int[OF t3(1)])
  then have q0: "to_double (to_double (of_int x - fmod (of_int x) 3) / 3) = of_int t"
    using to_double_of_int[OF t3(2)] by simp
  have c: "(fmod (of_int x) 3 \<noteq> 0 \<and> (((3::rat) < 0) \<noteq> (fmod (of_int x) 3 < 0))) = (x - 3 * t < 0)"
    unfolding rem by auto
  have m1: "to_double (of_int t - 1) = of_int (t - 1)"
    using to_double_of_int[OF t3(3)] by simp
  have d: "(if x - 3 * t < 0 then t - 1 else t) = x div 3"
    unfolding t_def by (auto split: if_splits)
  have z: "to_double 0 = 0" by (simp add: to_double_def)
  have quot: "(if fmod (of_int x) 3 \<noteq> 0 \<and> (((3::rat) < 0) \<noteq> (fmod (of_int x) 3 < 0))
               then to_double (to_double (to_double (of_int x - fmod (of_int x) 3) / 3) - 1)
               else to_double (to_double (of_int x - fmod (of_int x) 3) / 3)) = of_int (x div 3)"
    unfolding c q0 m1 using d by (auto split: if_splits)
  show ?thesis
    unfolding float_floor_div_def Let_def quot by (simp add: z)
qed

lemma float_floor_div_ge:
  assumes "2 ^ 53 \<le> vx"
  shows "2 ^ 50 \<le> float_floor_div vx 3"
proof -
  have v0: "0 \<le> vx" using assms by (rule order_trans[rotated]) simp
  note r = fmod_nonneg[OF v0]
  have "(2::rat) ^ 52 \<le> vx - fmod vx 3" using assms r(2) by simp
  from to_double_ge[OF this] have "(2::rat) ^ 50 \<le> to_double (vx - fmod vx 3) / 3" by simp
  from to_double_ge[OF this] have q: "2 ^ 50 \<le> to_double (to_double (vx - fmod vx 3) / 3)" .
  define quot where
    "quot = (if fmod vx 3 \<noteq> 0 \<and> (((3::rat) < 0) \<noteq> (fmod vx 3 < 0))
             then to_double (to_double (to_double (vx - fmod vx 3) / 3) - 1)
             else to_double (to_double (vx - fmod vx 3) / 3))"
  have c: "\<not> (fmod vx 3 \<noteq> 0 \<and> (((3::rat) < 0) \<noteq> (fmod vx 3 < 0)))" using r(1) by simp
  have "quot = to_double (to_double (vx - fmod vx 3) / 3)" unfolding quot_def by (rule if_not_P) (rule c)
  then have q': "2 ^ 50 \<le> quot" using q by simp
  have "(of_int (2 ^ 50) :: rat) \<le> quot" using q' by simp
  then have "2 ^ 50 \<le> \<lfloor>quot\<rfloor>" by (simp only: le_floor_iff)
  then have "(of_int (2 ^ 50) :: rat) \<le> of_int \<lfloor>quot\<rfloor>" by (simp only: of_int_le_iff)
  then have fl: "(2::rat) ^ 50 \<le> of_int \<lfloor>quot\<rfloor>" by simp
  then have "(2::rat) ^ 50 \<le> of_int \<lfloor>quot\<rfloor> + 1" by linarith
  from to_double_ge[OF this] have fl1: "2 ^ 50 \<le> to_double (of_int \<lfloor>quot\<rfloor> + 1)" .
  have nz: "quot \<noteq> 0" using q' by auto
  have "float_floor_div vx 3 =
          (if 1 / 2 < to_double (quot - of_int \<lfloor>quot\<rfloor>) then to_double (of_int \<lfloor>quot\<rfloor> + 1)
           else of_int \<lfloor>quot\<rfloor>)"
    unfolding float_floor_div_def Let_def quot_def[symmetric] using nz by simp
  then show ?thesis using fl fl1 by (simp split: if_splits)
qed

lemma float_floor_div_le:
  assumes "vx \<le> - (2 ^ 53)"
  shows "float_floor_div vx 3 \<le> - (2 ^ 49)"
proof -
  have v0: "vx \<le> 0" using assms by (rule order_trans) simp
  note r = fmod_nonpos[OF v0]
  have "vx - fmod vx 3 \<le> - ((2::rat) ^ 52)" using assms r(1) by simp
  from to_double_le[OF this] have "to_double (vx - fmod vx 3) / 3 \<le> - ((2::rat) ^ 50)" by simp
  from to_double_le[OF this] have q: "to_double (to_double (vx - fmod vx 3) / 3) \<le> - (2 ^ 50)" .
  then have "to_double (to_double (vx - fmod vx 3) / 3) - 1 \<le> - ((2::rat) ^ 50)" by simp
  from to_double_le[OF this]
  have q1: "to_double (to_double (to_double (vx - fmod vx 3) / 3) - 1) \<le> - (2 ^ 50)" .
  define quot where
    "quot = (if fmod vx 3 \<noteq> 0 \<and> (((3::rat) < 0) \<noteq> (fmod vx 3 < 0))
             then to_double (to_double (to_double (vx - fmod vx 3) / 3) - 1)
             else to_double (to_double (vx - fmod vx 3) / 3))"
  have q': "quot \<le> - (2 ^ 50)" using q q1 unfolding quot_def by (simp split: if_splits)
  have "of_int \<lfloor>quot\<rfloor> \<le> quot" by simp
  then have fl: "of_int \<lfloor>quot\<rfloor> \<le> - ((2::rat) ^ 50)" using q' by linarith
  then have "of_int \<lfloor>quot\<rfloor> + 1 \<le> - ((2::rat) ^ 49)" by simp
  from to_double_le[OF this] have fl1: "to_double (of_int \<lfloor>quot\<rfloor> + 1) \<le> - (2 ^ 49)" .
  have nz: "quot \<noteq> 0" using q' by auto
  have "float_floor_div vx 3 =
          (if 1 / 2 < to_double (quot - of_int \<lfloor>quot\<rfloor>) then to_double (of_int \<lfloor>quot\<rfloor> + 1)
           else of_int \<lfloor>quot\<rfloor>)"
    unfolding float_floor_div_def Let_def quot_def[symmetric] using nz by simp
  then show ?thesis using fl fl1 by (simp split: if_splits)
qed

lemma float_exact_bound: "(2::int) ^ 53 < 2 ^ 1024 - 2 ^ 970"
  by simp

lemma floordiv_exact: "\<bar>x\<bar> \<le> 2 ^ 53 \<Longrightarrow> floordiv_n_sq_root x = Inr (x div 3)"
  using float_exact_bound
  by (simp add: floordiv_n_sq_root_def float_of_int_def to_double_of_int float_floor_div_of_int)

lemma floordiv_overflow:
  "2 ^ 1024 - 2 ^ 970 \<le> \<bar>x\<bar> \<Longrightarrow> floordiv_n_sq_root x = Inl OverflowError"
  by (simp add: floordiv_n_sq_root_def float_of_int_def)

lemma floordiv_returns:
  "\<bar>x\<bar> < 2 ^ 1024 - 2 ^ 970 \<Longrightarrow> \<exists>v. floordiv_n_sq_root x = Inr v"
  by (simp add: floordiv_n_sq_root_def float_of_int_def)

lemma floordiv_outside:
  assumes "\<bar>x\<bar> < 2 ^ 1024 - 2 ^ 970" "x \<notin> {0..8}"
  shows "\<exists>v. floordiv_n_sq_root x = Inr v \<and> v \<notin> {0..2}"
proof -
  consider "\<bar>x\<bar> \<le> 2 ^ 53" | "2 ^ 53 < x" | "x < - (2 ^ 53)" by linarith
  then show ?thesis
  proof cases
    case 1
    have "x div 3 \<notin> {0..2}" using assms(2) by auto
    then show ?thesis using floordiv_exact[OF 1] by simp
  next
    case 2
    then have "(of_int (2 ^ 53) :: rat) \<le> of_int x" by (simp only: of_int_le_iff)
    then have "(2::rat) ^ 53 \<le> of_int x" by simp
    from float_floor_div_ge[OF to_double_ge[OF this]]
    have "(of_int (2 ^ 50) :: rat) \<le> float_floor_div (to_double (of_int x)) 3" by simp
    then have "2 ^ 50 \<le> \<lfloor>float_floor_div (to_double (of_int x)) 3\<rfloor>" by (simp only: le_floor_iff)
    then show ?thesis using assms(1) by (simp add: floordiv_n_sq_root_def float_of_int_def)
  next
    case 3
    then have "(of_int x :: rat) \<le> of_int (- (2 ^ 53))" by (simp only: of_int_le_iff)
    then have "of_int x \<le> - ((2::rat) ^ 53)" by simp
    from float_floor_div_le[OF to_double_le[OF this]]
    have "float_floor_div (to_double (of_int x)) 3 \<le> of_int (- (2 ^ 49))" by simp
    then have "\<lfloor>float_floor_div (to_double (of_int x)) 3\<rfloor> \<le> - (2 ^ 49)"
      by (simp only: floor_le_iff)
    then show ?thesis using assms(1) by (simp add: floordiv_n_sq_root_def float_of_int_def)
  qed
qed

lemma grid_key_exact:
  "\<bar>row\<bar> \<le> 2 ^ 53 \<Longrightarrow> \<bar>col\<bar> \<le> 2 ^ 53 \<Longrightarrow> grid_key row col = Inr (row div 3, col div 3)"
  by (simp add: grid_key_def floordiv_exact)

lemma small_exact: "- 9 \<le> x \<Longrightarrow> x \<le> 8 \<Longrightarrow> \<bar>x\<bar> \<le> (2::int) ^ 53"
  by simp

lemma is_unsolvable_exact:
  assumes "\<bar>row\<bar> \<le> 2 ^ 53" "\<bar>col\<bar> \<le> 2 ^ 53"
  shows "is_unsolvable s row col val =
         Inr (\<not> (val \<notin> row_to_seen_vals s row \<and> val \<notin> col_to_seen_vals s col
                   \<and> val \<notin> grid_to_cells s (row div 3, col div 3)))"
  by (simp add: is_unsolvable_def grid_key_exact[OF assms])

lemma cell_exact:
  assumes "(r, c) \<in> cells"
  shows "\<bar>r\<bar> \<le> 2 ^ 53" "\<bar>c\<bar> \<le> 2 ^ 53"
  using assms by (auto simp: cells_def intro!: small_exact)

lemma initialize_state_populate:
  assumes "set cs \<subseteq> cells"
  shows "initialize_state s cs =
         (case populate s cs of
            Inl e \<Rightarrow> Inl e
          | Inr (flag, s') \<Rightarrow> if flag then Inl ValueError else Inr s')"
  using assms
proof (induction cs arbitrary: s)
  case Nil
  show ?case by simp
next
  case (Cons x cs)
  obtain r c where x: "x = (r, c)" by (cases x)
  have xc: "(r, c) \<in> cells" and rest: "set cs \<subseteq> cells" using Cons.prems x by auto
  note ex = cell_exact[OF xc]
  show ?case
  proof (cases "get_cell (board s) r c")
    case (Inl e)
    then show ?thesis by (simp add: x)
  next
    case (Inr v)
    show ?thesis
    proof (cases "v = 0")
      case True
      then show ?thesis using Inr Cons.IH[OF rest] by (simp add: x)
    next
      case False
      show ?thesis
      proof (cases "v \<in> row_to_seen_vals s r \<or> v \<in> col_to_seen_vals s c
                      \<or> v \<in> grid_to_cells s (r div 3, c div 3)")
        case True
        then have "is_unsolvable s r c v = Inr True"
          by (simp add: is_unsolvable_exact[OF ex])
        then show ?thesis using Inr False True by (simp add: x)
      next
        case free: False
        then have "is_unsolvable s r c v = Inr False"
          by (simp add: is_unsolvable_exact[OF ex])
        then show ?thesis
          using Inr False free Cons.IH[OF rest] by (simp add: x grid_key_exact[OF ex])
      qed
    qed
  qed
qed

lemma SudokuState_cases:
  assumes "is_9x9 g"
  shows "(clash g cells \<and> SudokuState g = Inl ValueError) \<or>
         (\<not> clash g cells \<and> (\<exists>s. SudokuState g = Inr s \<and>
              populate (initial_state g) all_cells = Inr (False, s) \<and> consistent s \<and> board s = g))"
proof -
  have eq: "SudokuState g =
         (case populate (initial_state g) all_cells of
            Inl e \<Rightarrow> Inl e
          | Inr (flag, s') \<Rightarrow> if flag then Inl ValueError else Inr s')"
    unfolding SudokuState_def by (rule initialize_state_populate) (simp add: all_cells_set)
  from populate_initial[OF assms]
  consider s where "populate (initial_state g) all_cells = Inr (True, s)" "clash g cells"
    | s where "populate (initial_state g) all_cells = Inr (False, s)" "board s = g" "consistent s"
    by blast
  then show ?thesis
  proof cases
    case 1
    then show ?thesis by (simp add: eq)
  next
    case 2
    have "\<not> clash g cells"
      using tracked_no_clash[of cells s] 2(2,3) by (simp add: consistent_def)
    then show ?thesis using 2 by (simp add: eq)
  qed
qed

lemma SudokuState_populated:
  assumes "is_9x9 g" "\<not> duplicate_clue g"
  shows "SudokuState g = Inr (populated g)" "consistent (populated g)" "board (populated g) = g"
    "populate (initial_state g) all_cells = Inr (False, populated g)"
proof -
  from SudokuState_cases[OF assms(1)] assms(2)
  obtain s where s: "SudokuState g = Inr s" "populate (initial_state g) all_cells = Inr (False, s)"
      "consistent s" "board s = g"
    by (auto simp: duplicate_clue_iff_clash)
  have "populated g = s" using s(2) by (simp add: populated_def)
  with s show "SudokuState g = Inr (populated g)" "consistent (populated g)" "board (populated g) = g"
    "populate (initial_state g) all_cells = Inr (False, populated g)" by simp_all
qed

lemma inv_tables_in_range:
  assumes "consistent s"
  shows "tables_in_range s"
proof -
  have tr: "tracked cells s" using assms by (simp add: consistent_def)
  have r: "row_to_seen_vals s r = {}" if "r \<notin> {0..8}" for r
    unfolding tracked_rows[OF tr] using that by (auto simp: cells_def)
  have c: "col_to_seen_vals s c = {}" if "c \<notin> {0..8}" for c
    unfolding tracked_cols[OF tr] using that by (auto simp: cells_def)
  have k: "grid_to_cells s k = {}" if "k \<notin> {0..2} \<times> {0..2}" for k
  proof -
    have "box_key p \<noteq> k" if "p \<in> cells" for p
    proof -
      have "box_key p \<in> {0..2} \<times> {0..2}" using that by (auto simp: cells_def box_key_def)
      then show ?thesis using \<open>k \<notin> {0..2} \<times> {0..2}\<close> by auto
    qed
    then show ?thesis unfolding tracked_boxes[OF tr] by auto
  qed
  show ?thesis unfolding tables_in_range_def using r c k by blast
qed

lemma norm_index_less: "norm_index xs i = Some k \<Longrightarrow> k < length xs"
  by (auto simp: norm_index_def split: if_splits)

lemma norm_index_length: "length ys = length xs \<Longrightarrow> norm_index ys i = norm_index xs i"
  by (simp add: norm_index_def)

lemma set_cell_round_trip:
  assumes "get_cell g row col = Inr v"
  shows "\<exists>g'. set_cell g row col d = Inr g' \<and> set_cell g' row col v = Inr g"
proof -
  obtain i where i: "norm_index g row = Some i"
    using assms by (auto simp: get_cell_def getitem_def split: option.splits)
  then have gi: "getitem g row = Inr (g ! i)" by (simp add: getitem_def)
  obtain j where j: "norm_index (g ! i) col = Some j" and v: "g ! i ! j = v"
    using assms gi by (auto simp: get_cell_def getitem_def split: option.splits)
  have il: "i < length g" and jl: "j < length (g ! i)"
    using norm_index_less i j by blast+
  let ?g' = "g[i := (g ! i)[j := d]]"
  have 1: "set_cell g row col d = Inr ?g'"
    by (simp add: set_cell_def gi setitem_def i j)
  have i': "norm_index ?g' row = Some i" using i norm_index_length[of ?g' g row] by simp
  have row': "?g' ! i = (g ! i)[j := d]" using il by simp
  have j': "norm_index ((g ! i)[j := d]) col = Some j"
    using j norm_index_length[of "(g ! i)[j := d]" "g ! i" col] by simp
  have "(g ! i)[j := g ! i ! j] = g ! i" by (rule list_update_id)
  then have "((g ! i)[j := d])[j := v] = g ! i" using v by simp
  then have 2: "set_cell ?g' row col v = Inr g"
    by (simp add: set_cell_def getitem_def setitem_def i' row' j' list_update_id)
  show ?thesis using 1 2 by blast
qed

lemma get_cell_9x9_range:
  assumes "is_9x9 g" "get_cell g row col = Inr v"
  shows "- 9 \<le> row" "row \<le> 8" "- 9 \<le> col" "col \<le> 8"
proof -
  obtain i where i: "norm_index g row = Some i"
    using assms(2) by (auto simp: get_cell_def getitem_def split: option.splits)
  then have gi: "getitem g row = Inr (g ! i)" by (simp add: getitem_def)
  obtain j where j: "norm_index (g ! i) col = Some j"
    using assms(2) gi by (auto simp: get_cell_def getitem_def split: option.splits)
  have il: "i < length g" using norm_index_less[OF i] .
  then have "length (g ! i) = 9" "length g = 9" using assms(1) by (simp_all add: is_9x9_def)
  then show "- 9 \<le> row" "row \<le> 8" "- 9 \<le> col" "col \<le> 8"
    using i j by (auto simp: norm_index_def split: if_splits)
qed

subsection \<open>The states of a run\<close>

lemma try_trace_result:
  assumes IH: "\<And>l s1. limit = Suc l \<Longrightarrow> \<exists>t. dfs_trace l s1 = (t, depth_first_search l s1)"
  shows "\<exists>t. try_trace limit s row col ds = (t, try_digits limit s row col ds)"
proof (induction ds arbitrary: s)
  case Nil
  show ?case by (simp add: try_trace.simps try_digits.simps)
next
  case (Cons d ds)
  show ?case
  proof (cases "d \<notin> row_to_seen_vals s row \<and> d \<notin> col_to_seen_vals s col
                  \<and> d \<notin> grid_to_cells s (row div 3, col div 3)")
    case False
    then have "try_trace limit s row col (d # ds) = try_trace limit s row col ds"
      by (subst try_trace.simps(2)) (rule if_not_P)
    then show ?thesis using Cons.IH[of s] by (simp add: try_digits_blocked[OF False])
  next
    case True
    have tt: "try_trace limit s row col (d # ds) =
        (case place s row col d of
           Inl e \<Rightarrow> ([], Inl e)
         | Inr s1 \<Rightarrow>
             (case limit of
                0 \<Rightarrow> ([s1], Inl RecursionError)
              | Suc l \<Rightarrow>
                  (case dfs_trace l s1 of
                     (t1, Inl e) \<Rightarrow> (s1 # t1, Inl e)
                   | (t1, Inr (None, s2)) \<Rightarrow>
                       (case undo s2 row col d of
                          Inl e \<Rightarrow> (s1 # t1, Inl e)
                        | Inr s3 \<Rightarrow>
                            (case try_trace limit s3 row col ds of
                               (t2, r) \<Rightarrow> (s1 # t1 @ s3 # t2, r)))
                   | (t1, Inr (Some deep_state, s2)) \<Rightarrow> (s1 # t1, Inr (Some (board s2), s2)))))"
      using True by (subst try_trace.simps(2)) (rule if_P)
    note td = try_digits_free[OF True, of limit ds]
    show ?thesis
    proof (cases "place s row col d")
      case (Inl e)
      then show ?thesis unfolding tt td by simp
    next
      case s1: (Inr s1)
      show ?thesis
      proof (cases limit)
        case 0
        then show ?thesis unfolding tt td using s1 by simp
      next
        case (Suc l)
        obtain t1 where t1: "dfs_trace l s1 = (t1, depth_first_search l s1)"
          using IH[OF Suc] by blast
        show ?thesis
        proof (cases "depth_first_search l s1")
          case (Inl e)
          then show ?thesis unfolding tt td using s1 Suc t1 by simp
        next
          case (Inr x)
          obtain r2 s2 where x: "x = (r2, s2)" by (cases x)
          show ?thesis
          proof (cases r2)
            case (Some g)
            then show ?thesis unfolding tt td using s1 Suc t1 Inr x by simp
          next
            case None
            show ?thesis
            proof (cases "undo s2 row col d")
              case (Inl e)
              then show ?thesis unfolding tt td using s1 Suc t1 Inr x None by simp
            next
              case s3: (Inr s3)
              obtain t2 where "try_trace limit s3 row col ds = (t2, try_digits limit s3 row col ds)"
                using Cons.IH[of s3] by blast
              then show ?thesis unfolding tt td using s1 Suc t1 Inr x None s3 by simp
            qed
          qed
        qed
      qed
    qed
  qed
qed

lemma dfs_trace_result: "\<exists>t. dfs_trace limit s = (t, depth_first_search limit s)"
proof (induction limit arbitrary: s)
  case 0
  have "\<exists>t. try_trace 0 s r c ds = (t, try_digits 0 s r c ds)" for r c ds
    by (rule try_trace_result) simp
  then show ?case
    by (subst dfs_trace.simps, subst depth_first_search.simps) simp
next
  case (Suc l)
  have "\<exists>t. try_trace (Suc l) s r c ds = (t, try_digits (Suc l) s r c ds)" for r c ds
    by (rule try_trace_result) (use Suc.IH in blast)
  then show ?case
    by (subst dfs_trace.simps, subst depth_first_search.simps) simp
qed

lemma dfs_trace_snd: "snd (dfs_trace limit s) = depth_first_search limit s"
  using dfs_trace_result[of limit s] by auto

lemma filter_not_last:
  assumes "distinct xs" "xs \<noteq> []"
  shows "filter (\<lambda>q. q \<noteq> last xs) xs = butlast xs"
proof -
  have xs: "xs = butlast xs @ [last xs]" using assms(2) by simp
  have "last xs \<notin> set (butlast xs)"
    using assms(1) xs by (metis distinct_append disjoint_iff list.set_intros(1) distinct.simps(2)
        append_butlast_last_id not_distinct_conv_prefix)
  then have "filter (\<lambda>q. q \<noteq> last xs) (butlast xs) = butlast xs"
    by (auto simp: filter_id_conv)
  then have "filter (\<lambda>q. q \<noteq> last xs) (butlast xs @ [last xs]) = butlast xs" by simp
  then show ?thesis using xs by simp
qed

lemma row_major_place:
  assumes "row_major s" "empty_cells s \<noteq> []" "p = last (empty_cells s)" "d \<noteq> 0"
    and "empty_cells s1 = butlast (empty_cells s)"
    and "\<forall>q\<in>cells. cell_at (board s1) q = (if q = p then d else cell_at (board s) q)"
  shows "row_major s1"
proof -
  let ?zs = "filter (\<lambda>q. cell_at (board s) q = 0) all_cells"
  have e: "empty_cells s = ?zs" using assms(1) by (simp add: row_major_def)
  have d: "distinct ?zs" using distinct_all_cells by simp
  have "filter (\<lambda>q. cell_at (board s1) q = 0) all_cells
        = filter (\<lambda>q. cell_at (board s) q = 0 \<and> q \<noteq> p) all_cells"
    by (rule filter_cong) (use assms(4,6) all_cells_set in auto)
  also have "\<dots> = filter (\<lambda>q. q \<noteq> p) ?zs" by (simp add: conj_commute)
  also have "\<dots> = butlast ?zs"
    using filter_not_last[OF d] assms(2,3) e by simp
  finally show ?thesis using assms(5) e by (simp add: row_major_def)
qed

lemma try_trace_good:
  assumes IH: "\<And>l s1. limit = Suc l \<Longrightarrow> consistent s1 \<Longrightarrow> row_major s1 \<Longrightarrow> \<forall>t\<in>set (fst (dfs_trace l s1)). consistent t \<and> row_major t"
    and inv: "consistent s" and rm: "row_major s"
    and ne: "empty_cells s \<noteq> []" and last: "last (empty_cells s) = (row, col)"
    and ds: "set ds \<subseteq> {1..9}"
  shows "\<forall>t\<in>set (fst (try_trace limit s row col ds)). consistent t \<and> row_major t"
  using ds
proof (induction ds)
  case Nil
  show ?case by (simp add: try_trace.simps)
next
  case (Cons d ds)
  have dnz: "d \<noteq> 0" and ds': "set ds \<subseteq> {1..9}" using Cons.prems by auto
  note rest = Cons.IH[OF ds']
  show ?case
  proof (cases "d \<notin> row_to_seen_vals s row \<and> d \<notin> col_to_seen_vals s col
                  \<and> d \<notin> grid_to_cells s (row div 3, col div 3)")
    case False
    then have "try_trace limit s row col (d # ds) = try_trace limit s row col ds"
      by (subst try_trace.simps(2)) (rule if_not_P)
    then show ?thesis using rest by simp
  next
    case True
    have tt: "try_trace limit s row col (d # ds) =
        (case place s row col d of
           Inl e \<Rightarrow> ([], Inl e)
         | Inr s1 \<Rightarrow>
             (case limit of
                0 \<Rightarrow> ([s1], Inl RecursionError)
              | Suc l \<Rightarrow>
                  (case dfs_trace l s1 of
                     (t1, Inl e) \<Rightarrow> (s1 # t1, Inl e)
                   | (t1, Inr (None, s2)) \<Rightarrow>
                       (case undo s2 row col d of
                          Inl e \<Rightarrow> (s1 # t1, Inl e)
                        | Inr s3 \<Rightarrow>
                            (case try_trace limit s3 row col ds of
                               (t2, r) \<Rightarrow> (s1 # t1 @ s3 # t2, r)))
                   | (t1, Inr (Some deep_state, s2)) \<Rightarrow> (s1 # t1, Inr (Some (board s2), s2)))))"
      using True by (subst try_trace.simps(2)) (rule if_P)
    obtain s1 where s1: "place s row col d = Inr s1" "consistent s1" "undo s1 row col d = Inr s"
        "empty_cells s1 = butlast (empty_cells s)"
        "\<forall>q\<in>cells. cell_at (board s1) q = (if q = (row, col) then d else cell_at (board s) q)"
      using place_ok[OF inv ne last[symmetric] dnz] True by auto
    have rm1: "row_major s1"
      using row_major_place[OF rm ne last[symmetric] dnz s1(4,5)] .
    show ?thesis
    proof (cases limit)
      case 0
      then show ?thesis unfolding tt using s1(1,2) rm1 by simp
    next
      case (Suc l)
      obtain t1 where t1: "dfs_trace l s1 = (t1, depth_first_search l s1)"
        using dfs_trace_result by blast
      have i1: "\<forall>t\<in>set t1. consistent t \<and> row_major t" using IH[OF Suc s1(2) rm1] t1 by simp
      show ?thesis
      proof (cases "depth_first_search l s1")
        case (Inl e)
        then show ?thesis unfolding tt using s1(1,2) rm1 Suc t1 i1 by simp
      next
        case (Inr x)
        obtain r2 s2 where x: "x = (r2, s2)" by (cases x)
        show ?thesis
        proof (cases r2)
          case (Some g)
          then show ?thesis unfolding tt using s1(1,2) rm1 Suc t1 i1 Inr x by simp
        next
          case None
          have "s2 = s1"
            using dfs_sound[OF s1(2) Inr[unfolded x]] None by (simp add: search_post_def)
          then have u: "undo s2 row col d = Inr s" using s1(3) by simp
          obtain t2 r where t2: "try_trace limit s row col ds = (t2, r)" by (cases "try_trace limit s row col ds")
          then have i2: "\<forall>t\<in>set t2. consistent t \<and> row_major t" using rest by simp
          show ?thesis unfolding tt using s1(1,2) rm1 Suc t1 i1 Inr x None u t2 i2 inv rm by auto
        qed
      qed
    qed
  qed
qed

lemma dfs_trace_good_step:
  assumes IH: "\<And>l s1. limit = Suc l \<Longrightarrow> consistent s1 \<Longrightarrow> row_major s1 \<Longrightarrow> \<forall>t\<in>set (fst (dfs_trace l s1)). consistent t \<and> row_major t"
    and inv: "consistent s" and rm: "row_major s"
  shows "\<forall>t\<in>set (fst (dfs_trace limit s)). consistent t \<and> row_major t"
proof (cases "empty_cells s = []")
  case True
  then show ?thesis by (subst dfs_trace.simps) simp
next
  case False
  obtain row col where last: "last (empty_cells s) = (row, col)" by (cases "last (empty_cells s)")
  have "\<forall>t\<in>set (fst (try_trace limit s row col [1..9])). consistent t \<and> row_major t"
    by (rule try_trace_good[OF IH inv rm False last]) simp_all
  then show ?thesis using False last by (subst dfs_trace.simps) simp
qed

lemma dfs_trace_good:
  "consistent s \<Longrightarrow> row_major s \<Longrightarrow> \<forall>t\<in>set (fst (dfs_trace limit s)). consistent t \<and> row_major t"
proof (induction limit arbitrary: s)
  case 0
  show ?case by (rule dfs_trace_good_step[OF _ 0]) simp
next
  case (Suc l)
  show ?case
  proof (rule dfs_trace_good_step[OF _ Suc.prems])
    fix l' s1 assume "Suc l = Suc l'" "consistent s1" "row_major s1"
    then show "\<forall>t\<in>set (fst (dfs_trace l' s1)). consistent t \<and> row_major t" using Suc.IH[of s1] by simp
  qed
qed


lemma populated_row_major:
  assumes "is_9x9 g" "populate (initial_state g) all_cells = Inr (False, s)"
  shows "row_major s"
proof -
  from populate_initial[OF assms(1)] assms(2) have "board s = g" by auto
  then show ?thesis
    using populate_initial_empty_cells[OF assms] by (simp add: row_major_def)
qed


lemma inv_empty_cells_exact:
  assumes "consistent s"
  shows "empty_cells_exact s"
proof -
  have tr: "tracked cells s" using assms by (simp add: consistent_def)
  have "set (filter (\<lambda>p. cell_at (board s) p = 0) all_cells) = {p \<in> cells. cell_at (board s) p = 0}"
    by (simp add: all_cells_set)
  then show ?thesis
    unfolding empty_cells_exact_def using tracked_distinct[OF tr] tracked_empty[OF tr] by simp
qed


subsection \<open>Example runs\<close>

lemma puzzle_9x9: "is_9x9 puzzle_grid" by code_simp
lemma puzzle_entries: "entries_0_to_9 puzzle_grid" by code_simp
lemma puzzle_solved: "sudoku_solver 3 puzzle_grid = Inr solved_grid" by code_simp
lemma solved_not_invalid: "solved_grid \<noteq> invalid_sudoku" by code_simp
lemma puzzle_completes: "completes puzzle_grid solved_grid" by code_simp
lemma puzzle_count: "count_empty puzzle_grid = 3" by code_simp
lemma puzzle_depth: "sudoku_solver 2 puzzle_grid = Inl RecursionError" by code_simp
lemma dead_9x9: "is_9x9 dead_grid" by code_simp
lemma dead_rejected: "sudoku_solver 1 dead_grid = Inr invalid_sudoku" by code_simp
lemma dead_no_duplicate: "\<not> duplicate_clue dead_grid" by code_simp
lemma duplicate_9x9: "is_9x9 duplicate_grid" by code_simp
lemma duplicate_dup: "duplicate_clue duplicate_grid" by code_simp

lemma duplicate_a1: "sudoku_solver_a1 0 duplicate_grid = Inr invalid_sudoku" by code_simp

lemma empty_state_built: "SudokuState empty_grid = Inr empty_state"
  by (simp add: SudokuState_def empty_grid_def empty_state_def initial_state_def all_cells_def
      get_cell_def getitem_def norm_index_def upto_rec1)

lemma last_all_cells: "last all_cells = (8, 8)"
  by (simp add: all_cells_def upto_rec1)

lemma populated_solved_tables: "5 \<in> row_to_seen_vals (populated solved_grid) 0"
  by code_simp

lemma solved_9x9: "is_9x9 solved_grid" by code_simp

lemma solved_no_duplicate: "\<not> duplicate_clue solved_grid" by code_simp

lemma out_of_range_row_only: "is_unsolvable (populated solved_grid) 9 0 5 = Inr True"
  by code_simp




lemma revert_state_keeps_digit:
  "map_sum id (\<lambda>s. cell_at (board s) (8, 8)) (place_then_revert empty_state 8 8 1) = Inr 1"
  by code_simp

lemma dead_states:
  "map (\<lambda>t. (cell_at (board t) (8, 8), empty_cells t)) (solver_states 1 dead_grid) =
     [(0, [(0, 0), (3, 1), (8, 8)]), (9, [(0, 0), (3, 1)]), (0, [(0, 0), (3, 1), (8, 8)])]"
  by code_simp

section \<open>The claims\<close>

text \<open>
  C1 (soundness).  For every 9x9 board of integers 0 to 9: when \<open>sudoku_solver\<close> returns
  a board other than the all \<open>-1\<close> sentinel, every row, column and 3x3 box of that board
  holds each digit 1 to 9 exactly once, and every cell filled in the input holds its
  input value.  This holds whatever recursion limit the interpreter runs with.
\<close>

theorem solver_sound:
  assumes "is_9x9 g" "entries_0_to_9 g" "sudoku_solver limit g = Inr out" "out \<noteq> invalid_sudoku"
  shows "valid_solution out \<and> keeps_clues g out"
  using assms(1)
proof (cases rule: solve_sudoku_cases[where limit=limit])
  case (rejected s)
  then show ?thesis using assms(3,4) by (simp add: sudoku_solver_def)
next
  case (searched s0)
  show ?thesis
  proof (cases "depth_first_search limit s0")
    case (Inl e)
    then show ?thesis using assms(3) searched(6) by (simp add: sudoku_solver_def)
  next
    case (Inr x)
    obtain r s' where x: "x = (r, s')" by (cases x)
    show ?thesis
    proof (cases r)
      case None
      then show ?thesis using assms(3,4) searched(6) Inr x by (simp add: sudoku_solver_def)
    next
      case (Some goal)
      then have out: "out = goal" using assms(3) searched(6) Inr x by (simp add: sudoku_solver_def)
      have "search_post s0 (Some goal) s'"
        using dfs_sound[OF searched(3) Inr[unfolded x]] Some by simp
      then have "goal = board s'" "consistent s'" "empty_cells s' = []" "fills g (board s')"
        using searched(4) by (simp_all add: search_post_def)
      then show ?thesis
        using complete_board_valid[OF _ _ _ clues_in_range[OF assms(1,2)], of s'] out by simp
    qed
  qed
qed

theorem solver_sound_witness:
  "is_9x9 puzzle_grid \<and> entries_0_to_9 puzzle_grid \<and> sudoku_solver 3 puzzle_grid = Inr solved_grid
   \<and> solved_grid \<noteq> invalid_sudoku \<and> valid_solution solved_grid \<and> keeps_clues puzzle_grid solved_grid"
  using solver_sound[OF puzzle_9x9 puzzle_entries puzzle_solved solved_not_invalid]
    puzzle_9x9 puzzle_entries puzzle_solved solved_not_invalid by simp

text \<open>
  C2 (completeness).  For every 9x9 board that has a valid completion, \<open>sudoku_solver\<close>
  returns a valid completion of it, never the sentinel, and no exception, as soon as the
  recursion limit allows as many nested calls as the board has empty cells.  (A board
  with a completion has no duplicate clue.)
\<close>

theorem solver_complete:
  assumes "is_9x9 g" "completes g sol" "count_empty g \<le> limit"
  shows "\<exists>out. sudoku_solver limit g = Inr out \<and> completes g out \<and> out \<noteq> invalid_sudoku"
  using assms(1)
proof (cases rule: solve_sudoku_cases[where limit=limit])
  case (rejected s)
  then show ?thesis using completes_no_clash[OF assms(2)] by simp
next
  case (searched s0)
  have "length (empty_cells s0) \<le> limit" using searched(5) assms(3) by simp
  from dfs_total[OF searched(3) this]
  obtain r s' where run: "depth_first_search limit s0 = Inr (r, s')" by (metis surj_pair)
  from dfs_sound[OF searched(3) run]
  have post: "search_post s0 r s'" and none: "r = None \<longrightarrow> (\<forall>sol. \<not> completes (board s0) sol)"
    by simp_all
  show ?thesis
  proof (cases r)
    case None
    then show ?thesis using none assms(2) searched(4) by simp
  next
    case (Some goal)
    then have g: "goal = board s'" "consistent s'" "empty_cells s' = []" "fills g (board s')"
      using post searched(4) by (simp_all add: search_post_def)
    have clues: "\<forall>p\<in>cells. cell_at g p \<noteq> 0 \<longrightarrow> 1 \<le> cell_at g p \<and> cell_at g p \<le> 9"
    proof (intro ballI impI)
      fix p assume p: "p \<in> cells" "cell_at g p \<noteq> 0"
      then have "cell_at g p = cell_at sol p" using completes_keeps[OF assms(2)] by simp
      then show "1 \<le> cell_at g p \<and> cell_at g p \<le> 9" using completes_range[OF assms(2) p(1)] by simp
    qed
    have v: "valid_solution goal" "keeps_clues g goal"
      using complete_board_valid[OF g(2,3,4) clues] g(1) by simp_all
    have "sudoku_solver limit g = Inr goal"
      using searched(6) run Some by (simp add: sudoku_solver_def)
    then show ?thesis using v valid_not_invalid[OF v(1)] by (simp add: completes_def)
  qed
qed

theorem solver_complete_witness:
  "is_9x9 puzzle_grid \<and> completes puzzle_grid solved_grid \<and> count_empty puzzle_grid \<le> 3
   \<and> (\<exists>out. sudoku_solver 3 puzzle_grid = Inr out \<and> completes puzzle_grid out \<and> out \<noteq> invalid_sudoku)"
  using solver_complete[OF puzzle_9x9 puzzle_completes, of 3] puzzle_9x9 puzzle_completes puzzle_count
  by simp

text \<open>
  C3 (rejection).  For every 9x9 board in which some non-zero value occurs twice in a
  row, a column or a 3x3 box, \<open>sudoku_solver\<close> returns the board whose every entry is
  \<open>-1\<close>: the final solver through its early \<open>return\<close>, the solver of
  \<^verbatim>\<open>sudoku_approach1.py\<close> through the \<open>ValueError\<close> of the constructor.
\<close>

theorem duplicate_rejected:
  assumes "is_9x9 g" "duplicate_clue g"
  shows "sudoku_solver limit g = Inr invalid_sudoku \<and> sudoku_solver_a1 limit g = Inr invalid_sudoku"
proof -
  have c: "clash g cells" using assms(2) by (simp add: duplicate_clue_iff_clash)
  have 1: "sudoku_solver limit g = Inr invalid_sudoku"
    using assms(1)
  proof (cases rule: solve_sudoku_cases[where limit=limit])
    case (rejected s)
    then show ?thesis by (simp add: sudoku_solver_def)
  next
    case (searched s0)
    then show ?thesis using c by simp
  qed
  have "SudokuState g = Inl ValueError" using SudokuState_cases[OF assms(1)] c by blast
  then have 2: "sudoku_solver_a1 limit g = Inr invalid_sudoku"
    by (simp add: sudoku_solver_a1_def)
  show ?thesis using 1 2 by simp
qed

theorem duplicate_rejected_witness:
  "is_9x9 duplicate_grid \<and> duplicate_clue duplicate_grid
   \<and> sudoku_solver 0 duplicate_grid = Inr invalid_sudoku
   \<and> sudoku_solver_a1 0 duplicate_grid = Inr invalid_sudoku"
  using duplicate_rejected[OF duplicate_9x9 duplicate_dup, of 0] duplicate_9x9 duplicate_dup by simp

text \<open>
  C4 (place and undo).  As stated, for every legal digit and every empty cell, the claim
  fails: the placement pops the last entry of \<open>empty_cells\<close>, whatever cell it is given,
  and taking it back appends the cell given.  On the state of the empty board,
  \<open>place_digit(0, 0, 1)\<close> followed by \<open>revert_state(0, 0, 1)\<close> drops cell (8, 8) from
  \<open>empty_cells\<close> and lists (0, 0) twice.
\<close>

theorem place_undo_counterexample:
  "SudokuState empty_grid = Inr empty_state
   \<and> is_unsolvable empty_state 0 0 1 = Inr False
   \<and> get_cell (board empty_state) 0 0 = Inr 0
   \<and> (0, 0) \<in> set (empty_cells empty_state)
   \<and> place_then_revert empty_state 0 0 1 \<noteq> Inr empty_state
   \<and> map_sum id empty_cells (place_then_revert empty_state 0 0 1) = Inr (butlast all_cells @ [(0, 0)])
   \<and> butlast all_cells @ [(0, 0)] \<noteq> empty_cells empty_state"
proof -
  have 1: "is_unsolvable empty_state 0 0 1 = Inr False"
    by (simp add: is_unsolvable_exact empty_state_def)
  have 2: "get_cell (board empty_state) 0 0 = Inr 0"
    by (simp add: empty_state_def empty_grid_def get_cell_def getitem_def norm_index_def)
  have 3: "(0, 0) \<in> set (empty_cells empty_state)"
    by (simp add: empty_state_def all_cells_set cells_def)
  have ne: "all_cells \<noteq> []" by (simp add: all_cells_def upto_rec1)
  have e: "empty_cells empty_state = all_cells" by (simp add: empty_state_def)
  have diff: "butlast all_cells @ [(0, 0)] \<noteq> empty_cells empty_state"
  proof
    assume "butlast all_cells @ [(0, 0)] = empty_cells empty_state"
    then have "last all_cells = last (butlast all_cells @ [(0, 0)])" by (simp add: e)
    then show False by (simp add: last_all_cells)
  qed
  obtain b where b: "set_cell (board empty_state) 0 0 1 = Inr b"
    using set_cell_round_trip[OF 2] by blast
  have k: "grid_key 0 0 = Inr (0, 0)" using grid_key_exact[of 0 0] by simp
  have 5: "map_sum id empty_cells (place_then_revert empty_state 0 0 1) = Inr (butlast all_cells @ [(0, 0)])"
    using ne by (simp add: place_then_revert_def place_digit_def revert_state_def b k e)
  have 4: "place_then_revert empty_state 0 0 1 \<noteq> Inr empty_state"
  proof
    assume "place_then_revert empty_state 0 0 1 = Inr empty_state"
    then have "empty_cells empty_state = butlast all_cells @ [(0, 0)]" using 5 by simp
    with diff show False by simp
  qed
  show ?thesis using empty_state_built 1 2 3 4 5 diff by simp
qed

text \<open>
  C4, amended.  For every state over a 9x9 board, when \<open>(row, col)\<close> is the last entry of
  \<open>empty_cells\<close> (the cell the search chooses), the board holds 0 there, and the digit is
  in none of the three seen-sets: the placement of the final solver followed by its
  backtracking step restores the board, the three tables and \<open>empty_cells\<close> exactly; and
  \<open>place_digit\<close> followed by \<open>revert_state\<close> restores the three tables and
  \<open>empty_cells\<close>.
\<close>

theorem place_undo_round_trip:
  assumes "is_9x9 (board s)" "empty_cells s \<noteq> []" "last (empty_cells s) = (row, col)"
    and "get_cell (board s) row col = Inr 0"
    and "digit \<notin> row_to_seen_vals s row" "digit \<notin> col_to_seen_vals s col"
      "digit \<notin> grid_to_cells s (row div 3, col div 3)"
  shows "place_then_undo s row col digit = Inr s \<and>
         (\<exists>s2. place_then_revert s row col digit = Inr s2 \<and>
               row_to_seen_vals s2 = row_to_seen_vals s \<and> col_to_seen_vals s2 = col_to_seen_vals s \<and>
               grid_to_cells s2 = grid_to_cells s \<and> empty_cells s2 = empty_cells s)"
proof -
  obtain b where b: "set_cell (board s) row col digit = Inr b" "set_cell b row col 0 = Inr (board s)"
    using set_cell_round_trip[OF assms(4)] by blast
  have app: "butlast (empty_cells s) @ [(row, col)] = empty_cells s"
    using assms(2,3) by (metis append_butlast_last_id)
  have 1: "place_then_undo s row col digit = Inr s"
    using assms(2,5,6,7) by (simp add: place_then_undo_def place_def undo_def b app)
  have k: "grid_key row col = Inr (row div 3, col div 3)"
    using get_cell_9x9_range[OF assms(1,4)] by (intro grid_key_exact small_exact)
  define s2 where "s2 = s\<lparr>board := b\<rparr>"
  have "place_then_revert s row col digit = Inr s2"
    using assms(2,5,6,7) by (simp add: place_then_revert_def place_digit_def revert_state_def b k app s2_def)
  then have 2: "\<exists>s2. place_then_revert s row col digit = Inr s2 \<and>
               row_to_seen_vals s2 = row_to_seen_vals s \<and> col_to_seen_vals s2 = col_to_seen_vals s \<and>
               grid_to_cells s2 = grid_to_cells s \<and> empty_cells s2 = empty_cells s"
    by (simp add: s2_def)
  show ?thesis using 1 2 by blast
qed

theorem place_undo_round_trip_witness:
  "is_9x9 (board empty_state) \<and> empty_cells empty_state \<noteq> [] \<and> last (empty_cells empty_state) = (8, 8)
   \<and> get_cell (board empty_state) 8 8 = Inr 0
   \<and> 1 \<notin> row_to_seen_vals empty_state 8 \<and> 1 \<notin> col_to_seen_vals empty_state 8
   \<and> 1 \<notin> grid_to_cells empty_state (8 div 3, 8 div 3)
   \<and> place_then_undo empty_state 8 8 1 = Inr empty_state
   \<and> (\<exists>s2. place_then_revert empty_state 8 8 1 = Inr s2 \<and>
             row_to_seen_vals s2 = row_to_seen_vals empty_state \<and>
             col_to_seen_vals s2 = col_to_seen_vals empty_state \<and>
             grid_to_cells s2 = grid_to_cells empty_state \<and> empty_cells s2 = empty_cells empty_state)"
proof -
  have h: "is_9x9 (board empty_state)" "empty_cells empty_state \<noteq> []"
    "last (empty_cells empty_state) = (8, 8)" "get_cell (board empty_state) 8 8 = Inr 0"
    "1 \<notin> row_to_seen_vals empty_state 8" "1 \<notin> col_to_seen_vals empty_state 8"
    "1 \<notin> grid_to_cells empty_state (8 div 3, 8 div 3)"
    by (simp_all add: empty_state_def empty_grid_def is_9x9_def last_all_cells
        get_cell_def getitem_def norm_index_def, simp add: all_cells_def upto_rec1)
  from place_undo_round_trip[OF h] h show ?thesis by blast
qed




text \<open>
  C6 (legality test).  For every state, every row and column in 0..8 and every digit,
  \<open>is_unsolvable\<close> returns a value, and it returns \<open>False\<close> (the placement is legal) if
  and only if the digit is absent from the row's set, from the column's set and from the
  set of the box with key \<open>(row div 3, col div 3)\<close>.
\<close>

theorem is_legal_iff:
  assumes "row \<in> {0..8}" "col \<in> {0..8}"
  shows "(\<exists>b. is_unsolvable s row col digit = Inr b) \<and>
         (is_unsolvable s row col digit = Inr False \<longleftrightarrow>
            digit \<notin> row_to_seen_vals s row \<and> digit \<notin> col_to_seen_vals s col
            \<and> digit \<notin> grid_to_cells s (row div 3, col div 3))"
proof -
  have "\<bar>row\<bar> \<le> 2 ^ 53" "\<bar>col\<bar> \<le> 2 ^ 53" using assms by (auto intro!: small_exact)
  from is_unsolvable_exact[OF this, of s digit] show ?thesis by auto
qed

theorem is_legal_iff_witness:
  "(0::int) \<in> {0..8} \<and> (0::int) \<in> {0..8}
   \<and> (\<exists>b. is_unsolvable (populated solved_grid) 0 0 5 = Inr b)
   \<and> is_unsolvable (populated solved_grid) 0 0 5 \<noteq> Inr False"
  using is_legal_iff[of 0 0 "populated solved_grid" 5] populated_solved_tables by simp

text \<open>
  C7 (invariant I2).  For every 9x9 board, in every state of a run (the populated state,
  and the state after each placement and after each backtracking step of the search)
  \<open>empty_cells\<close> holds exactly the cells whose board value is 0, each once.  The states
  are those of \<open>dfs_trace\<close>, which returns what \<open>depth_first_search\<close> returns.
\<close>

theorem empty_cells_invariant:
  assumes "is_9x9 g"
  shows "list_all empty_cells_exact (solver_states limit g) \<and>
         snd (dfs_trace limit (populated g)) = depth_first_search limit (populated g)"
proof -
  have "list_all empty_cells_exact (solver_states limit g)"
  proof -
  from populate_initial[OF assms]
  consider s where "populate (initial_state g) all_cells = Inr (True, s)"
    | s where "populate (initial_state g) all_cells = Inr (False, s)" "consistent s"
    by blast
  then show ?thesis
  proof cases
    case 1
    then show ?thesis by (simp add: solver_states_def)
  next
    case 2
    have "\<forall>t\<in>set (s # fst (dfs_trace limit s)). consistent t"
      using dfs_trace_good[OF 2(2) populated_row_major[OF assms 2(1)], of limit] 2(2) by simp
    then have "list_all empty_cells_exact (s # fst (dfs_trace limit s))"
      unfolding list_all_iff using inv_empty_cells_exact by blast
    then show ?thesis using 2(1) by (simp add: solver_states_def)
  qed
qed
  then show ?thesis using dfs_trace_snd by simp
qed

theorem empty_cells_invariant_witness:
  "is_9x9 dead_grid \<and> length (solver_states 1 dead_grid) = 3
   \<and> list_all empty_cells_exact (solver_states 1 dead_grid)"
proof -
  have "length (map (\<lambda>t. (cell_at (board t) (8, 8), empty_cells t)) (solver_states 1 dead_grid)) = 3"
    unfolding dead_states by simp
  then have "length (solver_states 1 dead_grid) = 3" by simp
  then show ?thesis using empty_cells_invariant[OF dead_9x9, of 1] dead_9x9 by simp
qed

text \<open>
  C8 (termination).  For every 9x9 board the search returns: with a recursion limit of as
  many nested calls as the board has empty cells, which are at most 81, \<open>sudoku_solver\<close>
  yields a result and raises nothing, so the recursion never goes deeper than the number
  of empty cells.
\<close>

theorem search_terminates:
  assumes "is_9x9 g" "count_empty g \<le> limit"
  shows "count_empty g \<le> 81 \<and> (\<exists>out. sudoku_solver limit g = Inr out)"
proof -
  have "\<exists>out. sudoku_solver limit g = Inr out"
    using assms(1)
  proof (cases rule: solve_sudoku_cases[where limit=limit])
    case (rejected s)
    then show ?thesis by (simp add: sudoku_solver_def)
  next
    case (searched s0)
    have "length (empty_cells s0) \<le> limit" using searched(5) assms(2) by simp
    from dfs_total[OF searched(3) this]
    obtain r s' where run: "depth_first_search limit s0 = Inr (r, s')" by (metis surj_pair)
    then show ?thesis using searched(6) by (cases r) (simp_all add: sudoku_solver_def)
  qed
  then show ?thesis using count_empty_le by simp
qed

theorem search_terminates_witness:
  "is_9x9 puzzle_grid \<and> count_empty puzzle_grid \<le> 3
   \<and> count_empty puzzle_grid \<le> 81 \<and> (\<exists>out. sudoku_solver 3 puzzle_grid = Inr out)"
  using search_terminates[OF puzzle_9x9, of 3] puzzle_9x9 puzzle_count by simp

text \<open>
  C9 (atomicity on failure).  Whenever \<open>sudoku_solver\<close> returns the sentinel for a 9x9
  board, after a duplicate clue or after an exhausted search, the caller's array holds its
  original values.
\<close>

theorem failure_restores_input:
  assumes "is_9x9 g" "sudoku_solver limit g = Inr invalid_sudoku"
  shows "sudoku_after limit g = Inr g"
  using assms(1)
proof (cases rule: solve_sudoku_cases[where limit=limit])
  case (rejected s)
  then show ?thesis by (simp add: sudoku_after_def)
next
  case (searched s0)
  show ?thesis
  proof (cases "depth_first_search limit s0")
    case (Inl e)
    then show ?thesis using assms(2) searched(6) by (simp add: sudoku_solver_def)
  next
    case (Inr x)
    obtain r s' where x: "x = (r, s')" by (cases x)
    from dfs_sound[OF searched(3) Inr[unfolded x]]
    have post: "search_post s0 r s'" by simp
    show ?thesis
    proof (cases r)
      case None
      then have "s' = s0" using post by (simp add: search_post_def)
      then show ?thesis using searched(4,6) Inr x None by (simp add: sudoku_after_def)
    next
      case (Some goal)
      then have "goal = invalid_sudoku"
        using assms(2) searched(6) Inr x by (simp add: sudoku_solver_def)
      moreover have "goal = board s'" "consistent s'" using post Some by (simp_all add: search_post_def)
      ultimately show ?thesis using invalid_not_complete[of s'] by simp
    qed
  qed
qed

theorem failure_restores_input_witness:
  "is_9x9 dead_grid \<and> sudoku_solver 1 dead_grid = Inr invalid_sudoku
   \<and> sudoku_after 1 dead_grid = Inr dead_grid"
  using failure_restores_input[OF dead_9x9 dead_rejected] dead_9x9 dead_rejected by simp

text \<open>
  C10 (totality of the legality test).  As stated, for arbitrary integers, the claim
  fails: the box key is \<open>row // math.sqrt(9)\<close>, a division by a float, and an integer too
  large for a float raises \<open>OverflowError\<close>.
\<close>

theorem is_unsolvable_overflow_counterexample:
  "SudokuState empty_grid = Inr empty_state
   \<and> is_unsolvable empty_state (2 ^ 1024) 0 1 = Inl OverflowError"
proof -
  have "floordiv_n_sq_root (2 ^ 1024) = Inl OverflowError"
    by (rule floordiv_overflow) simp
  then have "is_unsolvable empty_state (2 ^ 1024) 0 1 = Inl OverflowError"
    by (simp add: is_unsolvable_def empty_state_def grid_key_def)
  then show ?thesis using empty_state_built by simp
qed

text \<open>
  C10, amended.  For any state, any digit and any row and column of magnitude below
  \<open>2^1024 - 2^970\<close> (the integers that convert to a float), \<open>is_unsolvable\<close> checks no
  bounds and returns a value.  On a state whose tables record the digits of a 9x9 board
  it returns \<open>False\<close> (legal) whenever row and column are both outside 0..8, the three
  sets read there being empty.
\<close>

theorem is_unsolvable_total:
  assumes "\<bar>row\<bar> < 2 ^ 1024 - 2 ^ 970" "\<bar>col\<bar> < 2 ^ 1024 - 2 ^ 970"
  shows "(\<exists>b. is_unsolvable s row col digit = Inr b) \<and>
         (consistent s \<and> row \<notin> {0..8} \<and> col \<notin> {0..8} \<longrightarrow>
            is_unsolvable s row col digit = Inr False)"
proof -
  from floordiv_returns[OF assms(1)] obtain a where a: "floordiv_n_sq_root row = Inr a" ..
  from floordiv_returns[OF assms(2)] obtain b where b: "floordiv_n_sq_root col = Inr b" ..
  have k: "grid_key row col = Inr (a, b)" by (simp add: grid_key_def a b)
  have ret: "\<exists>b. is_unsolvable s row col digit = Inr b" by (auto simp: is_unsolvable_def k)
  have "is_unsolvable s row col digit = Inr False"
    if c: "consistent s" and r: "row \<notin> {0..8}" and cl: "col \<notin> {0..8}"
  proof -
    note t = inv_tables_in_range[OF c]
    from floordiv_outside[OF assms(1) r] a have "a \<notin> {0..2}" by simp
    then have "(a, b) \<notin> {0..2} \<times> {0..2}" by auto
    then have "grid_to_cells s (a, b) = {}" using t unfolding tables_in_range_def by blast
    moreover have "row_to_seen_vals s row = {}" "col_to_seen_vals s col = {}"
      using t r cl unfolding tables_in_range_def by blast+
    ultimately show ?thesis by (simp add: is_unsolvable_def k)
  qed
  then show ?thesis using ret by blast
qed

theorem is_unsolvable_total_witness:
  "\<bar>2 ^ 60 :: int\<bar> < 2 ^ 1024 - 2 ^ 970 \<and> \<bar>- 1 :: int\<bar> < 2 ^ 1024 - 2 ^ 970
   \<and> consistent (populated solved_grid) \<and> (2 ^ 60 :: int) \<notin> {0..8} \<and> (- 1 :: int) \<notin> {0..8}
   \<and> is_unsolvable (populated solved_grid) (2 ^ 60) (- 1) 5 = Inr False"
  using is_unsolvable_total[of "2 ^ 60" "- 1" "populated solved_grid" 5]
    SudokuState_populated(2)[OF solved_9x9 solved_no_duplicate]
  by simp

end
